theory Spec2Isabelle
  imports Complex_Main
begin

section \<open>Breath patterns and sessions (src/utils/breathworkPatterns.ts)\<close>

text \<open>
  The TypeScript interfaces are records, the string unions are datatypes. A JavaScript
  \<open>number\<close> that holds a count of seconds, a round or an index is an \<open>int\<close>: the
  engine only adds and subtracts one, compares, and takes \<open>Math.min\<close> / \<open>Math.max\<close>,
  and \<open>timeRemaining\<close> may drop below zero. A reading of \<open>performance.now()\<close> is a
  \<open>real\<close> (milliseconds).
\<close>

datatype PhaseType = T_inhale | T_hold | T_exhale | T_pause

record BreathPhase =
  type :: PhaseType
  duration :: int
  label :: "string option"

datatype Category = relaxation | energizing | meditative | custom

record BreathPattern =
  pattern_id :: string
  name :: string
  description :: string
  category :: Category
  phases :: "BreathPhase list"
  isCyclical :: bool
  defaultBreaths :: "int option"
  instructions :: "string option"

record BreathSession =
  pattern :: BreathPattern
  breaths :: int
  currentRound :: int
  currentPhaseIndex :: int
  timeRemaining :: int
  isActive :: bool
  isPaused :: bool
  totalTime :: int
  elapsedTime :: int

section \<open>The engine (src/utils/breathworkEngine.ts)\<close>

datatype EngineEvent =
    E_phaseChange BreathPhase int int
  | E_roundComplete int int
  | E_sessionComplete
  | E_pause
  | E_resume
  | E_stop

datatype CountingDirection = D_up | D_down | D_hold

text \<open>
  The private fields of class \<open>BreathworkEngine\<close>, followed by the part of the
  environment the engine acts on:
  \<^item> \<open>timer\<close> is the handle stored in \<open>this.timer\<close>; \<open>intervals\<close> are the handles of
    the intervals this engine created with \<open>setInterval\<close> and that no \<open>clearInterval\<close>
    has cancelled yet (the live timers), \<open>nextHandle\<close> the next fresh handle;
  \<open>listeners\<close> holds the identities of the registered listener functions;
  \<^item> \<open>emitted\<close> is the trace of \<open>emitEvent\<close>: each event with the listeners it was
    delivered to, in delivery order;
  \<^item> \<open>soundCallback\<close> is the identity of the callback in the single slot, and
    \<open>sounds\<close> the trace of its invocations (callback, phase, count).
  Listeners and the sound callback are observers: they do not call back into the engine
  and do not throw. \<open>console.log\<close> is not modelled, nor are \<open>getProgress\<close> (a
  floating-point quotient) and \<open>getHoldValue\<close> (private, never called).
\<close>

record Engine =
  session :: "BreathSession option"
  timer :: "nat option"
  listeners :: "nat list"
  phaseStartTime :: real
  currentCount :: int
  countingDirection :: CountingDirection
  soundCallback :: "nat option"
  lastUpdateTime :: real
  expectedNextUpdate :: real
  expectedTime :: real
  intervals :: "nat list"
  nextHandle :: nat
  emitted :: "(EngineEvent \<times> nat list) list"
  sounds :: "(nat \<times> BreathPhase \<times> int) list"

text \<open>\<open>new BreathworkEngine()\<close>: the field initialisers, and an environment with no
  interval and empty traces.\<close>

definition newEngine :: Engine where
  "newEngine = \<lparr>session = None, timer = None, listeners = [], phaseStartTime = 0,
     currentCount = 1, countingDirection = D_up, soundCallback = None,
     lastUpdateTime = 0, expectedNextUpdate = 0, expectedTime = 0,
     intervals = [], nextHandle = 1, emitted = [], sounds = []\<rparr>"

text \<open>The only exception the engine can raise: a property read on \<open>undefined\<close>. A
  function that may raise returns \<open>Inl (TypeError, e)\<close>, where \<open>e\<close> is the engine as the
  statements before the raise left it (JavaScript does not roll mutations back).\<close>

datatype error = TypeError

type_synonym outcome = "(error \<times> Engine) + Engine"

fun stateAfter :: "outcome \<Rightarrow> Engine" where
  "stateAfter (Inl (err, e)) = e"
| "stateAfter (Inr e) = e"

text \<open>\<open>phases[i]\<close>: \<open>undefined\<close> (None) outside the array.\<close>

definition phaseAt :: "BreathPhase list \<Rightarrow> int \<Rightarrow> BreathPhase option" where
  "phaseAt ps i = (if 0 \<le> i \<and> i < int (length ps) then Some (ps ! nat i) else None)"

text \<open>\<open>phase?.duration || 0\<close>: 0 for a missing phase and for a duration of 0.\<close>

definition durationOrZero :: "BreathPhase option \<Rightarrow> int" where
  "durationOrZero p = (case p of None \<Rightarrow> 0 | Some ph \<Rightarrow> if duration ph = 0 then 0 else duration ph)"

definition calculateTotalTime :: "BreathPattern \<Rightarrow> int \<Rightarrow> int" where
  "calculateTotalTime pat n =
     (let patternDuration = foldl (\<lambda>total phase. total + duration phase) 0 (phases pat)
      in patternDuration * n)"

definition emitEvent :: "EngineEvent \<Rightarrow> Engine \<Rightarrow> Engine" where
  "emitEvent ev e = e\<lparr>emitted := emitted e @ [(ev, listeners e)]\<rparr>"

definition getCurrentPhase :: "Engine \<Rightarrow> BreathPhase option" where
  "getCurrentPhase e =
     (case session e of
        None \<Rightarrow> None
      | Some s \<Rightarrow> phaseAt (phases (pattern s)) (currentPhaseIndex s))"

definition getPhaseTimeRemaining :: "Engine \<Rightarrow> int" where
  "getPhaseTimeRemaining e = (case session e of None \<Rightarrow> 0 | Some s \<Rightarrow> timeRemaining s)"

definition getCurrentCount :: "Engine \<Rightarrow> int" where
  "getCurrentCount e = currentCount e"

definition getCountingDirection :: "Engine \<Rightarrow> CountingDirection" where
  "getCountingDirection e = countingDirection e"

definition getTotalTimeRemaining :: "Engine \<Rightarrow> int" where
  "getTotalTimeRemaining e =
     (case session e of None \<Rightarrow> 0 | Some s \<Rightarrow> totalTime s - elapsedTime s)"

definition setSoundCallback :: "nat option \<Rightarrow> Engine \<Rightarrow> Engine" where
  "setSoundCallback cb e = e\<lparr>soundCallback := cb\<rparr>"

definition addEventListener :: "nat \<Rightarrow> Engine \<Rightarrow> Engine" where
  "addEventListener l e = e\<lparr>listeners := listeners e @ [l]\<rparr>"

definition removeEventListener :: "nat \<Rightarrow> Engine \<Rightarrow> Engine" where
  "removeEventListener l e = e\<lparr>listeners := filter (\<lambda>l'. l' \<noteq> l) (listeners e)\<rparr>"

text \<open>\<open>if (this.timer) { clearInterval(this.timer); this.timer = null; }\<close>, the
  statement shared by \<open>pause\<close>, \<open>stop\<close> and the interval callback. A handle is an
  object (or a positive number in a browser), hence truthy.\<close>

definition clearTimer :: "Engine \<Rightarrow> Engine" where
  "clearTimer e =
     (case timer e of
        None \<Rightarrow> e
      | Some h \<Rightarrow> e\<lparr>intervals := removeAll h (intervals e), timer := None\<rparr>)"

definition countFor :: "BreathPhase \<Rightarrow> int \<Rightarrow> int \<times> CountingDirection" where
  "countFor currentPhase remaining =
     (let phaseDuration = duration currentPhase;
          timeElapsed = phaseDuration - remaining
      in case type currentPhase of
           T_inhale \<Rightarrow> (min (timeElapsed + 1) phaseDuration, D_up)
         | T_hold \<Rightarrow> (min (timeElapsed + 1) phaseDuration, D_up)
         | T_exhale \<Rightarrow> (min (timeElapsed + 1) phaseDuration, D_up)
         | T_pause \<Rightarrow> (max remaining 1, D_down))"

definition updateCountingState :: "Engine \<Rightarrow> Engine" where
  "updateCountingState e =
     (case session e of
        None \<Rightarrow> e
      | Some s \<Rightarrow>
          if \<not> isActive s then e
          else (case getCurrentPhase e of
             None \<Rightarrow> e
           | Some currentPhase \<Rightarrow>
               let previousCount = currentCount e;
                   (c, d) = countFor currentPhase (timeRemaining s);
                   e1 = e\<lparr>currentCount := c, countingDirection := d\<rparr>
               in (case soundCallback e1 of
                     None \<Rightarrow> e1
                   | Some cb \<Rightarrow>
                       if c \<noteq> previousCount \<or> elapsedTime s = 0
                       then e1\<lparr>sounds := sounds e1 @ [(cb, currentPhase, c)]\<rparr>
                       else e1)))"

definition createSession :: "BreathPattern \<Rightarrow> int \<Rightarrow> Engine \<Rightarrow> Engine" where
  "createSession pat n e =
     (let total = calculateTotalTime pat n;
          s = \<lparr>pattern = pat, breaths = n, currentRound = 1, currentPhaseIndex = 0,
               timeRemaining = durationOrZero (phaseAt (phases pat) 0),
               isActive = False, isPaused = False, totalTime = total, elapsedTime = 0\<rparr>
      in updateCountingState
           (e\<lparr>session := Some s, currentCount := 1, countingDirection := D_up\<rparr>))"

text \<open>\<open>startPreciseTimer\<close> up to the interval's callback, which is \<open>timerCallback\<close>
  below: it stores the handle of a new interval in \<open>this.timer\<close>, whatever that field
  held.\<close>

definition startPreciseTimer :: "real \<Rightarrow> Engine \<Rightarrow> Engine" where
  "startPreciseTimer startTime e =
     (case session e of
        None \<Rightarrow> e
      | Some s \<Rightarrow>
          e\<lparr>expectedTime := startTime, timer := Some (nextHandle e),
            intervals := intervals e @ [nextHandle e], nextHandle := Suc (nextHandle e)\<rparr>)"

definition start :: "real \<Rightarrow> Engine \<Rightarrow> Engine" where
  "start now e =
     (case session e of
        None \<Rightarrow> e
      | Some s \<Rightarrow>
          let e1 = e\<lparr>session := Some (s\<lparr>isActive := True, isPaused := False\<rparr>),
                     phaseStartTime := now, lastUpdateTime := now,
                     expectedNextUpdate := now + 1000\<rparr>;
              e2 = updateCountingState e1;
              e3 = startPreciseTimer now e2
          in emitEvent E_resume e3)"

definition pause :: "Engine \<Rightarrow> Engine" where
  "pause e =
     (case session e of
        None \<Rightarrow> e
      | Some s \<Rightarrow>
          if \<not> isActive s then e
          else emitEvent E_pause (clearTimer (e\<lparr>session := Some (s\<lparr>isPaused := True\<rparr>)\<rparr>)))"

definition resume :: "real \<Rightarrow> Engine \<Rightarrow> Engine" where
  "resume now e =
     (case session e of
        None \<Rightarrow> e
      | Some s \<Rightarrow>
          if \<not> isPaused s then e
          else
            let s1 = s\<lparr>isPaused := False\<rparr>;
                phaseDuration =
                  durationOrZero (phaseAt (phases (pattern s1)) (currentPhaseIndex s1));
                timeElapsedInPhase = phaseDuration - timeRemaining s1;
                e1 = e\<lparr>session := Some s1,
                       phaseStartTime := now - real_of_int timeElapsedInPhase * 1000,
                       lastUpdateTime := now, expectedTime := now,
                       expectedNextUpdate := now + 1000\<rparr>
            in emitEvent E_resume (startPreciseTimer now e1))"

definition stop :: "Engine \<Rightarrow> Engine" where
  "stop e =
     (let e1 = clearTimer e;
          e2 = (case session e1 of
                  None \<Rightarrow> e1
                | Some s \<Rightarrow> e1\<lparr>session := Some (s\<lparr>isActive := False, isPaused := False\<rparr>)\<rparr>);
          e3 = e2\<lparr>soundCallback := None\<rparr>
      in emitEvent E_stop e3)"

definition reset :: "Engine \<Rightarrow> Engine" where
  "reset e =
     (let e1 = stop e;
          e2 = (case session e1 of
                  None \<Rightarrow> e1
                | Some s \<Rightarrow>
                    e1\<lparr>session := Some (s\<lparr>currentRound := 1, currentPhaseIndex := 0,
                            timeRemaining := durationOrZero (phaseAt (phases (pattern s)) 0),
                            elapsedTime := 0\<rparr>),
                       currentCount := 1, countingDirection := D_up\<rparr>)
      in e2\<lparr>soundCallback := None\<rparr>)"

definition completeSession :: "Engine \<Rightarrow> Engine" where
  "completeSession e =
     emitEvent E_sessionComplete
       ((stop e)\<lparr>soundCallback := None, currentCount := 1, countingDirection := D_up\<rparr>)"

text \<open>\<open>completeRound\<close> reads \<open>firstPhase.duration\<close> with no guard: on an empty phase
  list \<open>firstPhase\<close> is \<open>undefined\<close> and the read raises.\<close>

definition completeRound :: "Engine \<Rightarrow> outcome" where
  "completeRound e =
     (case session e of
        None \<Rightarrow> Inr e
      | Some s \<Rightarrow>
          let s1 = s\<lparr>currentRound := currentRound s + 1, currentPhaseIndex := 0\<rparr>;
              e1 = emitEvent (E_roundComplete (currentRound s1 - 1) (breaths s1))
                     (e\<lparr>session := Some s1\<rparr>)
          in if currentRound s1 > breaths s1 then Inr (completeSession e1)
             else (case phaseAt (phases (pattern s1)) 0 of
                None \<Rightarrow> Inl (TypeError, e1)
              | Some firstPhase \<Rightarrow>
                  let e2 = updateCountingState
                             (e1\<lparr>session := Some (s1\<lparr>timeRemaining := duration firstPhase\<rparr>)\<rparr>)
                  in Inr (emitEvent (E_phaseChange firstPhase 0 (currentRound s1)) e2)))"

definition advancePhase :: "Engine \<Rightarrow> outcome" where
  "advancePhase e =
     (case session e of
        None \<Rightarrow> Inr e
      | Some s \<Rightarrow>
          let s1 = s\<lparr>currentPhaseIndex := currentPhaseIndex s + 1\<rparr>;
              e1 = e\<lparr>session := Some s1\<rparr>
          in if currentPhaseIndex s1 \<ge> int (length (phases (pattern s1)))
             then completeRound e1
             else (case phaseAt (phases (pattern s1)) (currentPhaseIndex s1) of
                None \<Rightarrow> Inl (TypeError, e1)
              | Some nextPhase \<Rightarrow>
                  let e2 = updateCountingState
                             (e1\<lparr>session := Some (s1\<lparr>timeRemaining := duration nextPhase\<rparr>)\<rparr>)
                  in Inr (emitEvent
                            (E_phaseChange nextPhase (currentPhaseIndex s1) (currentRound s1))
                            e2)))"

text \<open>The body of the callback that \<open>startPreciseTimer\<close> passes to \<open>setInterval\<close>.
  It refers to the engine only through \<open>this\<close>, so every interval of the engine runs
  the same body. \<open>drift\<close> is computed and never read.\<close>

definition timerCallback :: "real \<Rightarrow> Engine \<Rightarrow> outcome" where
  "timerCallback now e =
     (case session e of
        None \<Rightarrow> Inr (clearTimer e)
      | Some s \<Rightarrow>
          if isPaused s \<or> \<not> isActive s then Inr (clearTimer e)
          else
            let s1 = s\<lparr>timeRemaining := timeRemaining s - 1, elapsedTime := elapsedTime s + 1\<rparr>;
                e1 = updateCountingState (e\<lparr>session := Some s1\<rparr>)
            in (case (if timeRemaining s1 \<le> 0 then advancePhase e1 else Inr e1) of
                  Inl err \<Rightarrow> Inl err
                | Inr e2 \<Rightarrow>
                    Inr (e2\<lparr>expectedTime := expectedTime e2 + 1000, lastUpdateTime := now,
                            expectedNextUpdate := expectedTime e2 + 1000\<rparr>)))"

section \<open>Calls and ticks\<close>

text \<open>What can happen to an engine: a call of a public method, or the runtime firing
  the interval with handle \<open>h\<close> (a tick). Only a live interval fires.\<close>

datatype Action =
    CreateSession BreathPattern int
  | SetSoundCallback "nat option"
  | Start real
  | Pause
  | Resume real
  | Stop
  | Reset
  | AddEventListener nat
  | RemoveEventListener nat
  | Fire nat real

definition fire :: "nat \<Rightarrow> real \<Rightarrow> Engine \<Rightarrow> outcome" where
  "fire h now e = (if h \<in> set (intervals e) then timerCallback now e else Inr e)"

fun exec :: "Action \<Rightarrow> Engine \<Rightarrow> outcome" where
  "exec (CreateSession pat n) e = Inr (createSession pat n e)"
| "exec (SetSoundCallback cb) e = Inr (setSoundCallback cb e)"
| "exec (Start now) e = Inr (start now e)"
| "exec Pause e = Inr (pause e)"
| "exec (Resume now) e = Inr (resume now e)"
| "exec Stop e = Inr (stop e)"
| "exec Reset e = Inr (reset e)"
| "exec (AddEventListener l) e = Inr (addEventListener l e)"
| "exec (RemoveEventListener l) e = Inr (removeEventListener l e)"
| "exec (Fire h now) e = fire h now e"

text \<open>An exception that escapes the interval callback is reported by the runtime and
  the engine lives on in the state the callback left.\<close>

fun run :: "Action list \<Rightarrow> Engine \<Rightarrow> Engine" where
  "run [] e = e"
| "run (a # as) e = run as (stateAfter (exec a e))"

text \<open>\<open>ticks h ts e\<close>: the interval \<open>h\<close> fires once at each time of \<open>ts\<close>.\<close>

fun ticks :: "nat \<Rightarrow> real list \<Rightarrow> Engine \<Rightarrow> Engine" where
  "ticks h [] e = e"
| "ticks h (t # ts) e = ticks h ts (stateAfter (fire h t e))"

inductive reachable :: "Engine \<Rightarrow> bool" where
  reachable_new: "reachable newEngine"
| reachable_step: "reachable e \<Longrightarrow> reachable (stateAfter (exec a e))"

text \<open>Box Breathing, the first entry of \<open>BREATH_PATTERNS\<close>.\<close>

definition boxBreathing :: BreathPattern where
  "boxBreathing = \<lparr>pattern_id = ''box-breathing'', name = ''Box Breathing'',
     description = ''Equal duration for all phases - promotes calm and focus'',
     category = relaxation,
     phases = [\<lparr>type = T_inhale, duration = 4, label = Some ''Inhale''\<rparr>,
               \<lparr>type = T_hold, duration = 4, label = Some ''Hold''\<rparr>,
               \<lparr>type = T_exhale, duration = 4, label = Some ''Exhale''\<rparr>,
               \<lparr>type = T_hold, duration = 4, label = Some ''Hold''\<rparr>],
     isCyclical = True, defaultBreaths = Some 10,
     instructions = Some ''Breathe in for 4 counts, hold for 4, exhale for 4, hold for 4. Repeat.''\<rparr>"

text \<open>The public methods are the control calls; the tick is the runtime's.\<close>

definition isControl :: "Action \<Rightarrow> bool" where
  "isControl a = (case a of Fire h now \<Rightarrow> False | _ \<Rightarrow> True)"

text \<open>Sample engines: a listener, a Box Breathing session of two rounds, started at
  time 0, then paused.\<close>

definition sampleIdle :: Engine where
  "sampleIdle = createSession boxBreathing 2 (addEventListener 7 newEngine)"

definition sampleRunning :: Engine where
  "sampleRunning = start 0 sampleIdle"

definition samplePaused :: Engine where
  "samplePaused = pause sampleRunning"

definition sampleProgressed :: Engine where
  "sampleProgressed = ticks 1 [1000, 2000, 3000, 4000, 5000] sampleRunning"

text \<open>One tick a second for 32 seconds.\<close>

definition sampleTimes :: "real list" where
  "sampleTimes = map (\<lambda>k. 1000 * real k) [1..<33]"

text \<open>Counting the events of a trace.\<close>

definition roundCompletes :: "(EngineEvent \<times> nat list) list \<Rightarrow> nat" where
  "roundCompletes evs =
     length (filter (\<lambda>(ev, ls). case ev of E_roundComplete r n \<Rightarrow> True | _ \<Rightarrow> False) evs)"

definition sessionCompletes :: "(EngineEvent \<times> nat list) list \<Rightarrow> nat" where
  "sessionCompletes evs = length (filter (\<lambda>(ev, ls). ev = E_sessionComplete) evs)"

text \<open>Proof devices for a run: the ticks a running session still needs, and the state
  of a session in the middle of a run whose interval \<open>h\<close> is live.\<close>

definition ticksLeft :: "BreathSession \<Rightarrow> int" where
  "ticksLeft s =
     timeRemaining s
     + sum_list (map duration (drop (nat (currentPhaseIndex s) + 1) (phases (pattern s))))
     + sum_list (map duration (phases (pattern s))) * (breaths s - currentRound s)"

definition midRun :: "nat \<Rightarrow> Engine \<Rightarrow> BreathSession \<Rightarrow> bool" where
  "midRun h e s =
     (session e = Some s \<and> isActive s \<and> \<not> isPaused s \<and> h \<in> set (intervals e) \<and>
      0 \<le> currentPhaseIndex s \<and> currentPhaseIndex s < int (length (phases (pattern s))) \<and>
      1 \<le> timeRemaining s \<and> (\<forall>p\<in>set (phases (pattern s)). 1 \<le> duration p) \<and>
      currentRound s \<le> breaths s)"

text \<open>A custom pattern with a pause phase (no pattern of the catalog has one), and a
  session of it that has reached the pause.\<close>

definition pausePattern :: BreathPattern where
  "pausePattern = \<lparr>pattern_id = ''custom-1'', name = ''Inhale and rest'', description = [],
     category = custom,
     phases = [\<lparr>type = T_inhale, duration = 2, label = None\<rparr>,
               \<lparr>type = T_pause, duration = 3, label = None\<rparr>],
     isCyclical = True, defaultBreaths = None, instructions = None\<rparr>"

definition sampleResting :: Engine where
  "sampleResting = ticks 1 [1000, 2000] (start 0 (createSession pausePattern 1 newEngine))"

text \<open>The counting state agrees with what \<open>updateCountingState\<close> computes from the
  session (a proof device).\<close>

definition countConsistent :: "Engine \<Rightarrow> bool" where
  "countConsistent e =
     (\<forall>s p. session e = Some s \<longrightarrow> isActive s \<longrightarrow> getCurrentPhase e = Some p \<longrightarrow>
        (currentCount e, countingDirection e) = countFor p (timeRemaining s))"

text \<open>The count the presentation layer reads before each of the ticks at \<open>ts\<close>: the
  count shown during each second.\<close>

fun countsShown :: "nat \<Rightarrow> real list \<Rightarrow> Engine \<Rightarrow> int list" where
  "countsShown h [] e = []"
| "countsShown h (t # ts) e = getCurrentCount e # countsShown h ts (stateAfter (fire h t e))"

text \<open>The scenario of a single phase \<open>[inhale 3]\<close> and one round: the session runs to
  completion in three ticks; then it is started again, without a reset, and ticks once.\<close>

definition singleInhale :: BreathPattern where
  "singleInhale = \<lparr>pattern_id = ''custom-2'', name = ''Single inhale'', description = [],
     category = custom, phases = [\<lparr>type = T_inhale, duration = 3, label = None\<rparr>],
     isCyclical = True, defaultBreaths = None, instructions = None\<rparr>"

definition completingCalls :: "Action list" where
  "completingCalls = [CreateSession singleInhale 1, Start 0, Fire 1 1000, Fire 1 2000, Fire 1 3000]"

definition sampleCompleted :: Engine where
  "sampleCompleted = run completingCalls newEngine"

definition sampleRestarted :: Engine where
  "sampleRestarted = run [Start 4000, Fire 2 5000] sampleCompleted"

text \<open>Every \<open>sessionComplete\<close> of a trace comes directly after a \<open>stop\<close>; \<open>prev\<close> is
  the event before the trace.\<close>

fun stopPrecedes :: "EngineEvent option \<Rightarrow> EngineEvent list \<Rightarrow> bool" where
  "stopPrecedes prev [] = True"
| "stopPrecedes prev (ev # evs) =
     ((ev = E_sessionComplete \<longrightarrow> prev = Some E_stop) \<and> stopPrecedes (Some ev) evs)"

text \<open>Proof devices: \<open>e'\<close> has the trace of \<open>e\<close> and then events that keep
  \<open>stopPrecedes\<close>; a paused session has no handle in \<open>this.timer\<close>; a session is not
  paused.\<close>

definition emitsOnly :: "Engine \<Rightarrow> Engine \<Rightarrow> bool" where
  "emitsOnly e e' =
     (\<exists>evs. emitted e' = emitted e @ evs \<and> (\<forall>prev. stopPrecedes prev (map fst evs)))"

definition pausedIdle :: "Engine \<Rightarrow> bool" where
  "pausedIdle e = (\<forall>s. session e = Some s \<longrightarrow> isPaused s \<longrightarrow> timer e = None)"

definition unpaused :: "Engine \<Rightarrow> bool" where
  "unpaused e = (\<forall>s. session e = Some s \<longrightarrow> \<not> isPaused s)"

text \<open>
  Calls as the user interface makes them: a session is created with at least one round
  and a non-empty phase list, and \<open>start()\<close> is not called on a session whose
  \<open>currentRound\<close> exceeds \<open>breaths\<close> (\<open>handleStart\<close> in
  src/components/BreathworkTimer.tsx resets such a session first). \<open>gated e c\<close>: the
  engine \<open>e\<close> is reached from a new engine by such calls and by ticks, and \<open>c\<close> tells
  whether a \<open>sessionComplete\<close> was emitted since the session was created or last reset.
\<close>

definition permitted :: "Action \<Rightarrow> Engine \<Rightarrow> bool" where
  "permitted a e =
     (case a of
        CreateSession pat n \<Rightarrow> 1 \<le> n \<and> phases pat \<noteq> []
      | Start now \<Rightarrow> (case session e of None \<Rightarrow> True | Some s \<Rightarrow> currentRound s \<le> breaths s)
      | _ \<Rightarrow> True)"

definition completedAfter :: "Action \<Rightarrow> Engine \<Rightarrow> bool \<Rightarrow> bool" where
  "completedAfter a e c =
     (case a of
        CreateSession pat n \<Rightarrow> False
      | Reset \<Rightarrow> False
      | _ \<Rightarrow> c \<or> sessionCompletes (emitted e) < sessionCompletes (emitted (stateAfter (exec a e))))"

inductive gated :: "Engine \<Rightarrow> bool \<Rightarrow> bool" where
  gated_new: "gated newEngine False"
| gated_step: "gated e c \<Longrightarrow> permitted a e \<Longrightarrow>
     gated (stateAfter (exec a e)) (completedAfter a e c)"

fun permittedRun :: "Action list \<Rightarrow> Engine \<Rightarrow> bool" where
  "permittedRun [] e = True"
| "permittedRun (a # as) e = (permitted a e \<and> permittedRun as (stateAfter (exec a e)))"

fun completedRun :: "Action list \<Rightarrow> Engine \<Rightarrow> bool \<Rightarrow> bool" where
  "completedRun [] e c = c"
| "completedRun (a # as) e c = completedRun as (stateAfter (exec a e)) (completedAfter a e c)"

text \<open>The invariant of the rounds (a proof device).\<close>

definition roundOk :: "BreathSession \<Rightarrow> bool \<Rightarrow> bool" where
  "roundOk s c =
     (1 \<le> breaths s \<and> 1 \<le> currentRound s \<and> (breaths s < currentRound s \<longleftrightarrow> c) \<and>
      (c \<longrightarrow> currentRound s = breaths s + 1 \<and> \<not> isActive s \<and> \<not> isPaused s))"

definition roundInvariant :: "Engine \<Rightarrow> bool \<Rightarrow> bool" where
  "roundInvariant e c = (\<forall>s. session e = Some s \<longrightarrow> roundOk s c)"

section \<open>Frame lemmas\<close>

lemmas engine_defs = createSession_def start_def pause_def resume_def stop_def reset_def
  updateCountingState_def startPreciseTimer_def emitEvent_def clearTimer_def getCurrentPhase_def
  phaseAt_def durationOrZero_def calculateTotalTime_def countFor_def addEventListener_def
  removeEventListener_def setSoundCallback_def newEngine_def boxBreathing_def completeSession_def
  completeRound_def advancePhase_def timerCallback_def fire_def

lemmas sample_defs = sampleIdle_def sampleRunning_def samplePaused_def

lemma clearTimer_fields [simp]:
  "session (clearTimer e) = session e" "emitted (clearTimer e) = emitted e"
  "listeners (clearTimer e) = listeners e" "soundCallback (clearTimer e) = soundCallback e"
  "currentCount (clearTimer e) = currentCount e"
  "countingDirection (clearTimer e) = countingDirection e"
  "sounds (clearTimer e) = sounds e" "timer (clearTimer e) = None"
  "nextHandle (clearTimer e) = nextHandle e"
  by (simp_all add: clearTimer_def split: option.splits)

lemma emitEvent_fields [simp]:
  "session (emitEvent ev e) = session e"
  "emitted (emitEvent ev e) = emitted e @ [(ev, listeners e)]"
  "listeners (emitEvent ev e) = listeners e" "soundCallback (emitEvent ev e) = soundCallback e"
  "currentCount (emitEvent ev e) = currentCount e"
  "countingDirection (emitEvent ev e) = countingDirection e"
  "sounds (emitEvent ev e) = sounds e" "timer (emitEvent ev e) = timer e"
  "intervals (emitEvent ev e) = intervals e" "nextHandle (emitEvent ev e) = nextHandle e"
  by (simp_all add: emitEvent_def)

lemma updateCountingState_fields [simp]:
  "session (updateCountingState e) = session e" "emitted (updateCountingState e) = emitted e"
  "listeners (updateCountingState e) = listeners e"
  "soundCallback (updateCountingState e) = soundCallback e"
  "timer (updateCountingState e) = timer e" "intervals (updateCountingState e) = intervals e"
  "nextHandle (updateCountingState e) = nextHandle e"
  by (simp_all add: updateCountingState_def Let_def split: option.splits prod.splits)

lemma startPreciseTimer_fields [simp]:
  "session (startPreciseTimer t e) = session e" "emitted (startPreciseTimer t e) = emitted e"
  "listeners (startPreciseTimer t e) = listeners e"
  "soundCallback (startPreciseTimer t e) = soundCallback e"
  "currentCount (startPreciseTimer t e) = currentCount e"
  "countingDirection (startPreciseTimer t e) = countingDirection e"
  "sounds (startPreciseTimer t e) = sounds e"
  by (simp_all add: startPreciseTimer_def split: option.splits)

lemma stop_fields [simp]:
  "emitted (stop e) = emitted e @ [(E_stop, listeners e)]" "listeners (stop e) = listeners e"
  "soundCallback (stop e) = None" "currentCount (stop e) = currentCount e"
  "countingDirection (stop e) = countingDirection e" "sounds (stop e) = sounds e"
  "timer (stop e) = None" "nextHandle (stop e) = nextHandle e"
  "session (stop e) = map_option (\<lambda>s. s\<lparr>isActive := False, isPaused := False\<rparr>) (session e)"
  by (simp_all add: stop_def Let_def split: option.splits)

lemma session_start:
  "session (start now e) = map_option (\<lambda>s. s\<lparr>isActive := True, isPaused := False\<rparr>) (session e)"
  by (cases "session e") (simp_all add: start_def Let_def)

lemma session_pause:
  "session (pause e)
   = map_option (\<lambda>s. if isActive s then s\<lparr>isPaused := True\<rparr> else s) (session e)"
  by (cases "session e") (simp_all add: pause_def)

lemma session_resume:
  "session (resume now e)
   = map_option (\<lambda>s. if isPaused s then s\<lparr>isPaused := False\<rparr> else s) (session e)"
  by (cases "session e") (simp_all add: resume_def Let_def)

lemma session_reset:
  "session (reset e)
   = map_option (\<lambda>s. s\<lparr>isActive := False, isPaused := False, currentRound := 1,
                        currentPhaseIndex := 0,
                        timeRemaining := durationOrZero (phaseAt (phases (pattern s)) 0),
                        elapsedTime := 0\<rparr>) (session e)"
  by (cases "session e") (simp_all add: reset_def Let_def)

lemma roundCompletes_append [simp]:
  "roundCompletes (xs @ ys) = roundCompletes xs + roundCompletes ys"
  by (simp add: roundCompletes_def)

lemma sessionCompletes_append [simp]:
  "sessionCompletes (xs @ ys) = sessionCompletes xs + sessionCompletes ys"
  by (simp add: sessionCompletes_def)

lemma sessionCompletes_simps [simp]:
  "sessionCompletes [] = 0"
  "sessionCompletes ((ev, ls) # evs) = (if ev = E_sessionComplete then 1 else 0) + sessionCompletes evs"
  by (simp_all add: sessionCompletes_def)

lemma unpause_pause: "\<not> isPaused s \<Longrightarrow> s\<lparr>isPaused := True\<rparr>\<lparr>isPaused := False\<rparr> = s"
  by (cases s) simp

lemma sampleIdle_session:
  "session sampleIdle =
     Some \<lparr>pattern = boxBreathing, breaths = 2, currentRound = 1, currentPhaseIndex = 0,
           timeRemaining = 4, isActive = False, isPaused = False, totalTime = 32,
           elapsedTime = 0\<rparr>"
  by (simp add: sampleIdle_def engine_defs)

lemma sampleRunning_session:
  "session sampleRunning =
     Some \<lparr>pattern = boxBreathing, breaths = 2, currentRound = 1, currentPhaseIndex = 0,
           timeRemaining = 4, isActive = True, isPaused = False, totalTime = 32,
           elapsedTime = 0\<rparr>"
  by (simp add: sampleRunning_def start_def Let_def sampleIdle_session)

lemma sampleProgressed_session:
  "session sampleProgressed =
     Some \<lparr>pattern = boxBreathing, breaths = 2, currentRound = 1, currentPhaseIndex = 1,
           timeRemaining = 3, isActive = True, isPaused = False, totalTime = 32,
           elapsedTime = 5\<rparr>"
  by (simp add: sampleProgressed_def sample_defs engine_defs)

section \<open>One tick of a running session\<close>

lemma tick_inactive:
  "session e = None \<or> (\<exists>s. session e = Some s \<and> (isPaused s \<or> \<not> isActive s)) \<Longrightarrow>
   timerCallback now e = Inr (clearTimer e)"
  by (auto simp: timerCallback_def)

lemma tick_within:
  assumes "session e = Some s" "isActive s" "\<not> isPaused s" "1 < timeRemaining s"
  shows "\<exists>e'. timerCallback now e = Inr e' \<and>
           session e' = Some (s\<lparr>timeRemaining := timeRemaining s - 1,
                                elapsedTime := elapsedTime s + 1\<rparr>) \<and>
           emitted e' = emitted e \<and> intervals e' = intervals e \<and> timer e' = timer e \<and>
           currentCount e' =
             currentCount (updateCountingState
               (e\<lparr>session := Some (s\<lparr>timeRemaining := timeRemaining s - 1,
                                       elapsedTime := elapsedTime s + 1\<rparr>)\<rparr>))"
  using assms by (simp add: timerCallback_def Let_def)

lemma tick_next_phase:
  assumes "session e = Some s" "isActive s" "\<not> isPaused s" "timeRemaining s \<le> 1"
    and "0 \<le> currentPhaseIndex s" "currentPhaseIndex s + 1 < int (length (phases (pattern s)))"
  shows "\<exists>e'. timerCallback now e = Inr e' \<and>
           session e' =
             Some (s\<lparr>timeRemaining := duration (phases (pattern s) ! nat (currentPhaseIndex s + 1)),
                     elapsedTime := elapsedTime s + 1,
                     currentPhaseIndex := currentPhaseIndex s + 1\<rparr>) \<and>
           emitted e' =
             emitted e @ [(E_phaseChange (phases (pattern s) ! nat (currentPhaseIndex s + 1))
                             (currentPhaseIndex s + 1) (currentRound s), listeners e)] \<and>
           intervals e' = intervals e \<and> timer e' = timer e"
  using assms by (simp add: timerCallback_def advancePhase_def phaseAt_def Let_def)

lemma tick_next_round:
  assumes "session e = Some s" "isActive s" "\<not> isPaused s" "timeRemaining s \<le> 1"
    and "currentPhaseIndex s + 1 \<ge> int (length (phases (pattern s)))"
    and "currentRound s < breaths s" "phases (pattern s) \<noteq> []"
  shows "\<exists>e'. timerCallback now e = Inr e' \<and>
           session e' =
             Some (s\<lparr>timeRemaining := duration (phases (pattern s) ! 0),
                     elapsedTime := elapsedTime s + 1,
                     currentPhaseIndex := 0, currentRound := currentRound s + 1\<rparr>) \<and>
           emitted e' =
             emitted e @ [(E_roundComplete (currentRound s) (breaths s), listeners e),
                          (E_phaseChange (phases (pattern s) ! 0) 0 (currentRound s + 1),
                           listeners e)] \<and>
           intervals e' = intervals e \<and> timer e' = timer e"
  using assms
  by (simp add: timerCallback_def advancePhase_def completeRound_def phaseAt_def Let_def)

lemma tick_last:
  assumes "session e = Some s" "isActive s" "\<not> isPaused s" "timeRemaining s \<le> 1"
    and "currentPhaseIndex s + 1 \<ge> int (length (phases (pattern s)))"
    and "breaths s \<le> currentRound s"
  shows "\<exists>e'. timerCallback now e = Inr e' \<and>
           session e' =
             Some (s\<lparr>timeRemaining := timeRemaining s - 1, elapsedTime := elapsedTime s + 1,
                     currentPhaseIndex := 0, currentRound := currentRound s + 1,
                     isActive := False, isPaused := False\<rparr>) \<and>
           emitted e' =
             emitted e @ [(E_roundComplete (currentRound s) (breaths s), listeners e),
                          (E_stop, listeners e), (E_sessionComplete, listeners e)] \<and>
           timer e' = None \<and> currentCount e' = 1 \<and> countingDirection e' = D_up \<and>
           soundCallback e' = None"
  using assms
  by (simp add: timerCallback_def advancePhase_def completeRound_def completeSession_def
      phaseAt_def Let_def)

section \<open>Reachable states\<close>

lemma reachable_run: "reachable e \<Longrightarrow> reachable (run as e)"
  by (induction as arbitrary: e) (simp_all add: reachable_step)

lemma ticks_run: "ticks h ts e = run (map (Fire h) ts) e"
  by (induction ts arbitrary: e) simp_all

lemma reachable_ticks: "reachable e \<Longrightarrow> reachable (ticks h ts e)"
  by (simp add: ticks_run reachable_run)

lemma sampleRunning_reachable: "reachable sampleRunning"
proof -
  have "reachable (run [AddEventListener 7, CreateSession boxBreathing 2, Start 0] newEngine)"
    by (rule reachable_run [OF reachable_new])
  also have "run [AddEventListener 7, CreateSession boxBreathing 2, Start 0] newEngine
             = sampleRunning"
    by (simp add: sample_defs)
  finally show ?thesis .
qed

lemma sampleResting_reachable: "reachable sampleResting"
proof -
  have "reachable (ticks 1 [1000, 2000]
          (run [CreateSession pausePattern 1, Start 0] newEngine))"
    by (rule reachable_ticks [OF reachable_run [OF reachable_new]])
  also have "ticks 1 [1000, 2000] (run [CreateSession pausePattern 1, Start 0] newEngine)
             = sampleResting"
    by (simp add: sampleResting_def)
  finally show ?thesis .
qed

lemma sampleResting_session:
  "session sampleResting =
     Some \<lparr>pattern = pausePattern, breaths = 1, currentRound = 1, currentPhaseIndex = 1,
           timeRemaining = 3, isActive = True, isPaused = False, totalTime = 5,
           elapsedTime = 2\<rparr>"
  by (simp add: sampleResting_def pausePattern_def engine_defs)

lemma samplePaused_session:
  "session samplePaused =
     Some \<lparr>pattern = boxBreathing, breaths = 2, currentRound = 1, currentPhaseIndex = 0,
           timeRemaining = 4, isActive = True, isPaused = True, totalTime = 32,
           elapsedTime = 0\<rparr>"
  by (simp add: samplePaused_def pause_def sampleRunning_session)

lemma samplePaused_reachable: "reachable samplePaused"
  using reachable_step [OF sampleRunning_reachable, of Pause] by (simp add: samplePaused_def)

lemma sampleCompleted_session:
  "session sampleCompleted =
     Some \<lparr>pattern = singleInhale, breaths = 1, currentRound = 2, currentPhaseIndex = 0,
           timeRemaining = 0, isActive = False, isPaused = False, totalTime = 3,
           elapsedTime = 3\<rparr>"
  by (simp add: sampleCompleted_def completingCalls_def singleInhale_def engine_defs)

lemma sampleCompleted_emitted:
  "emitted sampleCompleted =
     [(E_resume, []), (E_roundComplete 1 1, []), (E_stop, []), (E_sessionComplete, [])]"
  by (simp add: sampleCompleted_def completingCalls_def singleInhale_def engine_defs)

lemma sampleCompleted_reachable: "reachable sampleCompleted"
  unfolding sampleCompleted_def by (rule reachable_run [OF reachable_new])

section \<open>Calls in a state they are not meant for\<close>

text \<open>
  Claim C4. \<open>pause()\<close> with no session or with a session that is not active, and
  \<open>resume()\<close> with no session or with a session that is not paused, return the engine as
  it was: no field of the session changes and the event trace is the same. No control
  method raises: each public call returns normally (\<open>Inr\<close>); the only raise of the engine
  is in the interval callback.
\<close>

theorem invalid_state_calls_are_noops:
  "(session e = None \<or> (\<exists>s. session e = Some s \<and> \<not> isActive s) \<longrightarrow> pause e = e) \<and>
   (session e = None \<or> (\<exists>s. session e = Some s \<and> \<not> isPaused s) \<longrightarrow> resume now e = e) \<and>
   (\<forall>a. isControl a \<longrightarrow> (\<exists>e'. exec a e = Inr e'))"
proof (intro conjI allI impI)
  assume "session e = None \<or> (\<exists>s. session e = Some s \<and> \<not> isActive s)"
  then show "pause e = e" by (auto simp: pause_def)
next
  assume "session e = None \<or> (\<exists>s. session e = Some s \<and> \<not> isPaused s)"
  then show "resume now e = e" by (auto simp: resume_def)
next
  fix a assume "isControl a"
  then show "\<exists>e'. exec a e = Inr e'" by (cases a) (simp_all add: isControl_def)
qed

theorem invalid_state_calls_are_noops_witness:
  "pause sampleIdle = sampleIdle \<and> resume 0 sampleIdle = sampleIdle \<and>
   pause newEngine = newEngine \<and> (\<exists>e'. exec Reset sampleIdle = Inr e')"
proof -
  have a: "\<exists>s. session sampleIdle = Some s \<and> \<not> isActive s"
    and p: "\<exists>s. session sampleIdle = Some s \<and> \<not> isPaused s"
    by (simp_all add: sampleIdle_session)
  have n: "session newEngine = None" by (simp add: newEngine_def)
  have c: "isControl Reset" by (simp add: isControl_def)
  from invalid_state_calls_are_noops [of sampleIdle 0] a p c
    invalid_state_calls_are_noops [of newEngine 0] n
  show ?thesis by blast
qed

section \<open>Pause followed by resume\<close>

text \<open>
  Claim C6. For a running session (active, not paused), \<open>pause()\<close> directly followed by
  \<open>resume()\<close>, with no tick in between, leaves the session as it was: \<open>timeRemaining\<close>,
  \<open>currentRound\<close>, \<open>currentPhaseIndex\<close> and \<open>elapsedTime\<close> are unchanged (and so is every
  other field of the session).
\<close>

theorem pause_resume_keeps_counters:
  assumes "session e = Some s" and "isActive s" and "\<not> isPaused s"
  shows "session (resume now (pause e)) = Some s \<and>
         (\<exists>s'. session (resume now (pause e)) = Some s' \<and>
            timeRemaining s' = timeRemaining s \<and> currentRound s' = currentRound s \<and>
            currentPhaseIndex s' = currentPhaseIndex s \<and> elapsedTime s' = elapsedTime s)"
  using assms by (simp add: pause_def resume_def Let_def unpause_pause)

theorem pause_resume_keeps_counters_witness:
  "session (resume 0 (pause sampleRunning)) = session sampleRunning \<and>
   map_option timeRemaining (session (resume 0 (pause sampleRunning))) = Some 4"
  using pause_resume_keeps_counters [of sampleRunning _ 0]
  by (simp add: sampleRunning_session)

section \<open>Reset\<close>

text \<open>
  Claim C7. Whatever state the engine is in, if it holds a session (with a non-empty
  phase list), \<open>reset()\<close> sets \<open>currentRound\<close> to 1, \<open>currentPhaseIndex\<close> to 0,
  \<open>timeRemaining\<close> to the duration of the first phase and \<open>elapsedTime\<close> to 0, sets the
  count to 1 and the direction to up, and keeps \<open>pattern\<close> and \<open>breaths\<close>.
\<close>

theorem reset_restores_initial_state:
  assumes "session e = Some s" and "phases (pattern s) \<noteq> []"
  shows "\<exists>s'. session (reset e) = Some s' \<and> currentRound s' = 1 \<and> currentPhaseIndex s' = 0 \<and>
           timeRemaining s' = duration (phases (pattern s) ! 0) \<and> elapsedTime s' = 0 \<and>
           pattern s' = pattern s \<and> breaths s' = breaths s \<and>
           currentCount (reset e) = 1 \<and> countingDirection (reset e) = D_up"
  using assms by (simp add: reset_def Let_def phaseAt_def durationOrZero_def)

theorem reset_restores_initial_state_witness:
  "session (reset sampleProgressed) =
     Some \<lparr>pattern = boxBreathing, breaths = 2, currentRound = 1, currentPhaseIndex = 0,
           timeRemaining = 4, isActive = False, isPaused = False, totalTime = 32,
           elapsedTime = 0\<rparr> \<and>
   currentCount (reset sampleProgressed) = 1 \<and> countingDirection (reset sampleProgressed) = D_up"
proof -
  have "phases (pattern \<lparr>pattern = boxBreathing, breaths = 2, currentRound = 1,
          currentPhaseIndex = 1, timeRemaining = 3, isActive = True, isPaused = False,
          totalTime = 32, elapsedTime = 5\<rparr>) \<noteq> []"
    by (simp add: boxBreathing_def)
  from reset_restores_initial_state [OF sampleProgressed_session this]
  show ?thesis
    by (simp add: reset_def Let_def sampleProgressed_session boxBreathing_def phaseAt_def
        durationOrZero_def)
qed

section \<open>Stop\<close>

text \<open>
  Claim C9. In every engine state, with or without a session, running or stopped,
  \<open>stop()\<close> emits one more event, a \<open>stop\<close>, delivered to all the registered listeners,
  and leaves the sound callback slot empty.
\<close>

theorem stop_always_emits_stop:
  "emitted (stop e) = emitted e @ [(E_stop, listeners e)] \<and> soundCallback (stop e) = None"
  by simp

theorem stop_always_emits_stop_witness:
  "emitted (stop newEngine) = [(E_stop, [])] \<and> soundCallback (stop newEngine) = None \<and>
   emitted (stop (stop sampleRunning)) = [(E_resume, [7]), (E_stop, [7]), (E_stop, [7])]"
  using stop_always_emits_stop [of newEngine] stop_always_emits_stop [of "stop sampleRunning"]
    stop_always_emits_stop [of sampleRunning]
  by (simp add: newEngine_def sampleRunning_def sampleIdle_def start_def createSession_def
      addEventListener_def Let_def)

section \<open>Live timers\<close>

text \<open>
  Claim C3 says that an engine never has two live intervals. \<open>start()\<close> does not cancel
  the interval in \<open>this.timer\<close> before \<open>startPreciseTimer\<close> overwrites the field: a second
  \<open>start()\<close> on a running session leaves two live intervals. The first can no longer be
  cancelled by \<open>stop()\<close>, and when both fire, one second takes two seconds off
  \<open>timeRemaining\<close>.
\<close>

theorem start_twice_two_live_timers:
  "intervals sampleRunning = [1] \<and> intervals (start 5 sampleRunning) = [1, 2] \<and>
   timer (start 5 sampleRunning) = Some 2 \<and>
   intervals (stop (start 5 sampleRunning)) = [1] \<and>
   map_option timeRemaining (session (start 5 sampleRunning)) = Some 4 \<and>
   map_option timeRemaining
     (session (run [Fire 1 1005, Fire 2 1005] (start 5 sampleRunning))) = Some 2"
  by (simp add: sample_defs engine_defs)

section \<open>A session runs to completion\<close>

lemma durations_nonneg:
  "\<forall>p\<in>set ps. 1 \<le> duration p \<Longrightarrow> 0 \<le> sum_list (map duration ps)"
  by (induction ps) auto

lemma durations_drop_nonneg:
  "\<forall>p\<in>set ps. 1 \<le> duration p \<Longrightarrow> 0 \<le> sum_list (map duration (drop n ps))"
  by (rule durations_nonneg) (auto dest: in_set_dropD)

lemma durations_drop_step:
  "n < length ps \<Longrightarrow>
   sum_list (map duration (drop n ps)) = duration (ps ! n) + sum_list (map duration (drop (Suc n) ps))"
  by (simp flip: Cons_nth_drop_Suc)

lemma ticksLeft_pos:
  assumes "midRun h e s"
  shows "1 \<le> ticksLeft s"
proof -
  let ?ps = "phases (pattern s)"
  from assms have d: "\<forall>p\<in>set ?ps. 1 \<le> duration p" and t: "1 \<le> timeRemaining s"
    and r: "0 \<le> breaths s - currentRound s" by (simp_all add: midRun_def)
  have "0 \<le> sum_list (map duration ?ps) * (breaths s - currentRound s)"
    using durations_nonneg [OF d] r by simp
  with durations_drop_nonneg [OF d, of "nat (currentPhaseIndex s) + 1"] t show ?thesis
    by (simp add: ticksLeft_def)
qed

lemma run_to_completion:
  assumes "midRun h e s" and "int (length ts) = ticksLeft s"
  shows "\<exists>s' evs. session (ticks h ts e) = Some s' \<and> \<not> isActive s' \<and>
           currentRound s' = breaths s + 1 \<and> emitted (ticks h ts e) = emitted e @ evs \<and>
           roundCompletes evs = nat (breaths s - currentRound s + 1) \<and>
           sessionCompletes evs = 1"
  using assms
proof (induction ts arbitrary: e s)
  case Nil
  with ticksLeft_pos [OF Nil.prems(1)] show ?case by simp
next
  case (Cons t ts)
  let ?ps = "phases (pattern s)"
  let ?i = "currentPhaseIndex s"
  from Cons.prems(1) have se: "session e = Some s" and act: "isActive s" and np: "\<not> isPaused s"
    and live: "h \<in> set (intervals e)" and i0: "0 \<le> ?i" and il: "?i < int (length ?ps)"
    and tr: "1 \<le> timeRemaining s" and dur: "\<forall>p\<in>set ?ps. 1 \<le> duration p"
    and rd: "currentRound s \<le> breaths s"
    by (simp_all add: midRun_def)
  have step: "ticks h (t # ts) e = ticks h ts (stateAfter (timerCallback t e))"
    using live by (simp add: fire_def)
  have len: "int (length ts) = ticksLeft s - 1" using Cons.prems(2) by simp
  consider (within) "1 < timeRemaining s"
    | (phase) "timeRemaining s = 1" "?i + 1 < int (length ?ps)"
    | (round) "timeRemaining s = 1" "?i + 1 = int (length ?ps)" "currentRound s < breaths s"
    | (last) "timeRemaining s = 1" "?i + 1 = int (length ?ps)" "currentRound s = breaths s"
    using tr il rd by linarith
  then show ?case
  proof cases
    case within
    from tick_within [OF se act np within, of t] obtain e' where
      e': "timerCallback t e = Inr e'"
      "session e' = Some (s\<lparr>timeRemaining := timeRemaining s - 1, elapsedTime := elapsedTime s + 1\<rparr>)"
      "emitted e' = emitted e" "intervals e' = intervals e" by blast
    let ?s' = "s\<lparr>timeRemaining := timeRemaining s - 1, elapsedTime := elapsedTime s + 1\<rparr>"
    have m: "midRun h e' ?s'"
      using Cons.prems(1) within e' by (simp add: midRun_def)
    have l: "int (length ts) = ticksLeft ?s'" using len by (simp add: ticksLeft_def)
    from Cons.IH [OF m l] show ?thesis using step e' by simp
  next
    case phase
    let ?q = "?ps ! nat (?i + 1)"
    let ?s' = "s\<lparr>timeRemaining := duration ?q, elapsedTime := elapsedTime s + 1,
                  currentPhaseIndex := ?i + 1\<rparr>"
    from tick_next_phase [OF se act np _ i0 phase(2), of t] phase(1) obtain e' where
      e': "timerCallback t e = Inr e'" "session e' = Some ?s'"
      "emitted e' = emitted e @ [(E_phaseChange ?q (?i + 1) (currentRound s), listeners e)]"
      "intervals e' = intervals e" by auto
    have qin: "?q \<in> set ?ps" using phase(2) i0 by (intro nth_mem) linarith
    have m: "midRun h e' ?s'"
      using Cons.prems(1) e' phase(2) i0 qin by (simp add: midRun_def)
    have n: "nat (?i + 1) = Suc (nat ?i)" using i0 by linarith
    have "sum_list (map duration (drop (Suc (nat ?i)) ?ps))
          = duration ?q + sum_list (map duration (drop (Suc (Suc (nat ?i))) ?ps))"
      using durations_drop_step [of "Suc (nat ?i)" ?ps] phase(2) i0 n by simp
    then have l: "int (length ts) = ticksLeft ?s'"
      using len phase(1) n by (simp add: ticksLeft_def)
    from Cons.IH [OF m l] obtain s' evs where
      r: "session (ticks h ts e') = Some s'" "\<not> isActive s'" "currentRound s' = breaths s + 1"
      "emitted (ticks h ts e') = emitted e' @ evs"
      "roundCompletes evs = nat (breaths s - currentRound s + 1)" "sessionCompletes evs = 1"
      by auto
    show ?thesis
      apply (rule exI [of _ s'])
      apply (rule exI [of _ "(E_phaseChange ?q (?i + 1) (currentRound s), listeners e) # evs"])
      using step e' r by (simp add: roundCompletes_def sessionCompletes_def)
  next
    case round
    have ne: "?ps \<noteq> []" using il i0 by auto
    let ?q = "?ps ! 0"
    let ?s' = "s\<lparr>timeRemaining := duration ?q, elapsedTime := elapsedTime s + 1,
                  currentPhaseIndex := 0, currentRound := currentRound s + 1\<rparr>"
    from tick_next_round [OF se act np _ _ round(3) ne, of t] round(1,2) obtain e' where
      e': "timerCallback t e = Inr e'" "session e' = Some ?s'"
      "emitted e' = emitted e @ [(E_roundComplete (currentRound s) (breaths s), listeners e),
                          (E_phaseChange ?q 0 (currentRound s + 1), listeners e)]"
      "intervals e' = intervals e" by auto
    have qin: "?q \<in> set ?ps" using ne by simp
    have m: "midRun h e' ?s'"
      using Cons.prems(1) e' round(3) ne qin by (simp add: midRun_def)
    have d0: "drop (nat ?i + 1) ?ps = []" using round(2) by simp
    have "sum_list (map duration ?ps) = duration ?q + sum_list (map duration (drop (Suc 0) ?ps))"
      using durations_drop_step [of 0 ?ps] ne by simp
    then have l: "int (length ts) = ticksLeft ?s'"
      using len round(1) d0 by (simp add: ticksLeft_def algebra_simps)
    from Cons.IH [OF m l] obtain s' evs where
      r: "session (ticks h ts e') = Some s'" "\<not> isActive s'" "currentRound s' = breaths s + 1"
      "emitted (ticks h ts e') = emitted e' @ evs"
      "roundCompletes evs = nat (breaths s - (currentRound s + 1) + 1)" "sessionCompletes evs = 1"
      by auto
    have rc: "Suc (nat (breaths s - (currentRound s + 1) + 1)) = nat (breaths s - currentRound s + 1)"
      using round(3) by linarith
    show ?thesis
      apply (rule exI [of _ s'])
      apply (rule exI [of _ "[(E_roundComplete (currentRound s) (breaths s), listeners e),
                          (E_phaseChange ?q 0 (currentRound s + 1), listeners e)] @ evs"])
      using step e' r rc by (simp add: roundCompletes_def sessionCompletes_def)
  next
    case last
    have d0: "drop (nat ?i + 1) ?ps = []" using last(2) by simp
    have "ticksLeft s = 1" using last(1,3) d0 by (simp add: ticksLeft_def)
    with len have ts: "ts = []" by simp
    from tick_last [OF se act np, of t] last obtain e' where
      e': "timerCallback t e = Inr e'"
      "session e' = Some (s\<lparr>timeRemaining := timeRemaining s - 1, elapsedTime := elapsedTime s + 1,
                     currentPhaseIndex := 0, currentRound := currentRound s + 1,
                     isActive := False, isPaused := False\<rparr>)"
      "emitted e' = emitted e @ [(E_roundComplete (currentRound s) (breaths s), listeners e),
                          (E_stop, listeners e), (E_sessionComplete, listeners e)]" by auto
    show ?thesis
      apply (rule exI [of _ "s\<lparr>timeRemaining := timeRemaining s - 1, elapsedTime := elapsedTime s + 1,
                     currentPhaseIndex := 0, currentRound := currentRound s + 1,
                     isActive := False, isPaused := False\<rparr>"])
      apply (rule exI [of _ "[(E_roundComplete (currentRound s) (breaths s), listeners e),
                          (E_stop, listeners e), (E_sessionComplete, listeners e)]"])
      using step e' ts last(3) by (simp add: roundCompletes_def sessionCompletes_def)
  qed
qed

lemma started_session:
  "session (start t0 (createSession P N e0)) =
     Some \<lparr>pattern = P, breaths = N, currentRound = 1, currentPhaseIndex = 0,
           timeRemaining = durationOrZero (phaseAt (phases P) 0), isActive = True,
           isPaused = False, totalTime = calculateTotalTime P N, elapsedTime = 0\<rparr>"
  by (simp add: start_def createSession_def Let_def)

lemma started_env:
  "timer (start t0 (createSession P N e0)) = Some (nextHandle e0)"
  "intervals (start t0 (createSession P N e0)) = intervals e0 @ [nextHandle e0]"
  "emitted (start t0 (createSession P N e0)) = emitted e0 @ [(E_resume, listeners e0)]"
  by (simp_all add: start_def createSession_def startPreciseTimer_def Let_def)

text \<open>
  Claim C1. Let \<open>P\<close> be a pattern with a non-empty phase list whose durations are at
  least 1 (the invariant of \<open>BreathPhase\<close>) and \<open>N \<ge> 1\<close>. After \<open>createSession(P, N)\<close>
  and \<open>start()\<close> on any engine, and exactly \<open>sum(durations) * N\<close> ticks of the interval
  that \<open>start()\<close> created, at whatever times, the session is not active and
  \<open>currentRound = N + 1\<close>, and since the session was created exactly \<open>N\<close>
  \<open>roundComplete\<close> events and exactly one \<open>sessionComplete\<close> event were emitted.
\<close>

theorem session_runs_to_completion:
  assumes "phases P \<noteq> []" and "\<forall>p\<in>set (phases P). 1 \<le> duration p" and "1 \<le> N"
    and "timer (start t0 (createSession P N e0)) = Some h"
    and "int (length ts) = sum_list (map duration (phases P)) * N"
  shows "\<exists>s. session (ticks h ts (start t0 (createSession P N e0))) = Some s \<and>
           \<not> isActive s \<and> currentRound s = N + 1 \<and>
           roundCompletes (drop (length (emitted e0))
             (emitted (ticks h ts (start t0 (createSession P N e0))))) = nat N \<and>
           sessionCompletes (drop (length (emitted e0))
             (emitted (ticks h ts (start t0 (createSession P N e0))))) = 1"
proof -
  let ?e1 = "start t0 (createSession P N e0)"
  let ?s1 = "\<lparr>pattern = P, breaths = N, currentRound = 1, currentPhaseIndex = 0,
           timeRemaining = durationOrZero (phaseAt (phases P) 0), isActive = True,
           isPaused = False, totalTime = calculateTotalTime P N, elapsedTime = 0\<rparr>"
  have h: "h = nextHandle e0" using assms(4) by (simp add: started_env)
  have d0: "durationOrZero (phaseAt (phases P) 0) = duration (phases P ! 0)"
    using assms(1) by (simp add: durationOrZero_def phaseAt_def)
  have "phases P ! 0 \<in> set (phases P)" using assms(1) by simp
  with assms(2) have d1: "1 \<le> duration (phases P ! 0)" by blast
  have m: "midRun h ?e1 ?s1"
    using assms(1,2,3) h d0 d1 by (simp add: midRun_def started_session started_env)
  have "sum_list (map duration (phases P))
        = duration (phases P ! 0) + sum_list (map duration (drop (Suc 0) (phases P)))"
    using durations_drop_step [of 0 "phases P"] assms(1) by simp
  then have l: "int (length ts) = ticksLeft ?s1"
    using assms(5) d0 by (simp add: ticksLeft_def algebra_simps)
  from run_to_completion [OF m l] obtain s' evs where
    r: "session (ticks h ts ?e1) = Some s'" "\<not> isActive s'" "currentRound s' = N + 1"
    "emitted (ticks h ts ?e1) = emitted ?e1 @ evs"
    "roundCompletes evs = nat N" "sessionCompletes evs = 1" by auto
  have "drop (length (emitted e0)) (emitted (ticks h ts ?e1)) = (E_resume, listeners e0) # evs"
    using r(4) by (simp add: started_env)
  with r show ?thesis by (simp add: roundCompletes_def sessionCompletes_def)
qed

theorem session_runs_to_completion_witness:
  "session (ticks 1 sampleTimes sampleRunning) =
     Some \<lparr>pattern = boxBreathing, breaths = 2, currentRound = 3, currentPhaseIndex = 0,
           timeRemaining = 0, isActive = False, isPaused = False, totalTime = 32,
           elapsedTime = 32\<rparr> \<and>
   roundCompletes (emitted (ticks 1 sampleTimes sampleRunning)) = 2 \<and>
   sessionCompletes (emitted (ticks 1 sampleTimes sampleRunning)) = 1"
proof -
  have a: "phases boxBreathing \<noteq> []" "\<forall>p\<in>set (phases boxBreathing). 1 \<le> duration p"
    by (simp_all add: boxBreathing_def)
  have b: "timer (start 0 (createSession boxBreathing 2 (addEventListener 7 newEngine))) = Some 1"
    by (simp add: started_env addEventListener_def newEngine_def)
  have c: "int (length sampleTimes) = sum_list (map duration (phases boxBreathing)) * 2"
    by (simp add: sampleTimes_def boxBreathing_def)
  have d: "emitted (addEventListener 7 newEngine) = []"
    by (simp add: addEventListener_def newEngine_def)
  have e: "session (ticks 1 sampleTimes sampleRunning) =
     Some \<lparr>pattern = boxBreathing, breaths = 2, currentRound = 3, currentPhaseIndex = 0,
           timeRemaining = 0, isActive = False, isPaused = False, totalTime = 32,
           elapsedTime = 32\<rparr>"
    by (simp add: sampleTimes_def upt_rec sample_defs engine_defs)
  from session_runs_to_completion [OF a _ b c] d e show ?thesis
    by (simp add: sample_defs)
qed

section \<open>The displayed count\<close>

lemma updateCountingState_active:
  assumes "session e = Some s" "isActive s" "getCurrentPhase e = Some p"
  shows "(currentCount (updateCountingState e), countingDirection (updateCountingState e))
         = countFor p (timeRemaining s)"
  using assms
  by (auto simp: updateCountingState_def Let_def case_prod_beta prod_eq_iff split: option.splits)

lemma getCurrentPhase_update [simp]:
  "getCurrentPhase (updateCountingState e) = getCurrentPhase e"
  by (simp add: getCurrentPhase_def)

lemma countConsistent_update [simp]: "countConsistent (updateCountingState e)"
proof (cases "session e")
  case None
  then show ?thesis by (simp add: countConsistent_def)
next
  case (Some s)
  show ?thesis
  proof (cases "isActive s \<and> getCurrentPhase e \<noteq> None")
    case True
    then obtain p where "getCurrentPhase e = Some p" by auto
    with updateCountingState_active [OF Some _ this] True Some show ?thesis
      by (simp add: countConsistent_def)
  next
    case False
    with Some show ?thesis by (auto simp: countConsistent_def)
  qed
qed

lemma countConsistent_frame:
  assumes "countConsistent e" "session e' = session e" "currentCount e' = currentCount e"
    "countingDirection e' = countingDirection e"
  shows "countConsistent e'"
  using assms by (simp add: countConsistent_def getCurrentPhase_def)

lemma countConsistent_inactive:
  "session e = None \<or> (\<exists>s. session e = Some s \<and> \<not> isActive s) \<Longrightarrow> countConsistent e"
  by (auto simp: countConsistent_def)

lemma countConsistent_emitEvent [simp]: "countConsistent (emitEvent ev e) = countConsistent e"
  by (simp add: countConsistent_def getCurrentPhase_def)

lemma countConsistent_clearTimer [simp]: "countConsistent (clearTimer e) = countConsistent e"
  by (simp add: countConsistent_def getCurrentPhase_def)

lemma countConsistent_startPreciseTimer [simp]:
  "countConsistent (startPreciseTimer t e) = countConsistent e"
  by (simp add: countConsistent_def getCurrentPhase_def)

lemma countConsistent_stamp [simp]:
  "countConsistent (e\<lparr>expectedTime := a, lastUpdateTime := b, expectedNextUpdate := c\<rparr>)
   = countConsistent e"
  by (simp add: countConsistent_def getCurrentPhase_def)

lemma countConsistent_stop [simp]: "countConsistent (stop e)"
  by (rule countConsistent_inactive) (cases "session e"; simp)

lemma countConsistent_completeSession [simp]: "countConsistent (completeSession e)"
  by (rule countConsistent_inactive) (cases "session e"; simp add: completeSession_def)

lemma countConsistent_no_phase:
  "getCurrentPhase e = None \<Longrightarrow> countConsistent e"
  by (simp add: countConsistent_def)

lemma countConsistent_completeRound: "countConsistent (stateAfter (completeRound e))"
proof (cases "session e")
  case None
  then show ?thesis by (simp add: completeRound_def countConsistent_inactive)
next
  case (Some s)
  then show ?thesis
    by (auto simp: completeRound_def Let_def getCurrentPhase_def split: option.splits
        intro!: countConsistent_no_phase)
qed

lemma countConsistent_advancePhase: "countConsistent (stateAfter (advancePhase e))"
proof (cases "session e")
  case None
  then show ?thesis by (simp add: advancePhase_def countConsistent_inactive)
next
  case (Some s)
  then show ?thesis
    by (auto simp: advancePhase_def Let_def getCurrentPhase_def countConsistent_completeRound
        split: option.splits intro!: countConsistent_no_phase)
qed

lemma countConsistent_timerCallback:
  assumes "countConsistent e"
  shows "countConsistent (stateAfter (timerCallback now e))"
proof (cases "session e = None \<or> (\<exists>s. session e = Some s \<and> (isPaused s \<or> \<not> isActive s))")
  case True
  from tick_inactive [OF this] assms show ?thesis by simp
next
  case False
  then obtain s where s: "session e = Some s" "isActive s" "\<not> isPaused s" by auto
  let ?e1 = "updateCountingState
               (e\<lparr>session := Some (s\<lparr>timeRemaining := timeRemaining s - 1,
                                       elapsedTime := elapsedTime s + 1\<rparr>)\<rparr>)"
  show ?thesis
  proof (cases "timeRemaining s - 1 \<le> 0")
    case True
    have "countConsistent (stateAfter (advancePhase ?e1))"
      by (rule countConsistent_advancePhase)
    with s True show ?thesis
      by (cases "advancePhase ?e1") (auto simp: timerCallback_def Let_def)
  next
    case False
    with s show ?thesis by (simp add: timerCallback_def Let_def)
  qed
qed

lemma countConsistent_exec:
  assumes "countConsistent e"
  shows "countConsistent (stateAfter (exec a e))"
proof (cases a)
  case (CreateSession pat n)
  then show ?thesis by (simp add: createSession_def Let_def)
next
  case (SetSoundCallback cb)
  with assms show ?thesis
    by (simp add: setSoundCallback_def countConsistent_def getCurrentPhase_def)
next
  case (Start now)
  with assms show ?thesis by (simp add: start_def Let_def split: option.splits)
next
  case Pause
  with assms show ?thesis
    by (auto simp: pause_def split: option.splits) (simp add: countConsistent_def getCurrentPhase_def)
next
  case (Resume now)
  with assms show ?thesis
    by (auto simp: resume_def Let_def split: option.splits)
       (simp add: countConsistent_def getCurrentPhase_def)
next
  case Stop
  then show ?thesis by simp
next
  case Reset
  then show ?thesis
    by (intro countConsistent_inactive) (cases "session e"; simp add: reset_def Let_def)
next
  case (AddEventListener l)
  with assms show ?thesis
    by (simp add: addEventListener_def countConsistent_def getCurrentPhase_def)
next
  case (RemoveEventListener l)
  with assms show ?thesis
    by (simp add: removeEventListener_def countConsistent_def getCurrentPhase_def)
next
  case (Fire h now)
  with assms show ?thesis by (simp add: fire_def countConsistent_timerCallback)
qed

lemma reachable_countConsistent: "reachable e \<Longrightarrow> countConsistent e"
proof (induction rule: reachable.induct)
  case reachable_new
  show ?case by (simp add: countConsistent_def newEngine_def)
next
  case (reachable_step e a)
  then show ?case by (simp add: countConsistent_exec)
qed

lemma countsShown_in_phase:
  assumes "session e = Some s" "isActive s" "\<not> isPaused s" "getCurrentPhase e = Some p"
    and "h \<in> set (intervals e)" "countConsistent e" "int (length ts) \<le> timeRemaining s"
  shows "countsShown h ts e
         = map (\<lambda>k. fst (countFor p (timeRemaining s - int k))) [0..<length ts]"
  using assms
proof (induction ts arbitrary: e s)
  case Nil
  show ?case by simp
next
  case (Cons t ts)
  have c0: "getCurrentCount e = fst (countFor p (timeRemaining s))"
    using Cons.prems(1,2,4,6) by (simp add: countConsistent_def getCurrentCount_def prod_eq_iff)
  show ?case
  proof (cases "ts = []")
    case True
    with c0 show ?thesis by simp
  next
    case False
    then have big: "1 < timeRemaining s" using Cons.prems(7) by (cases ts) simp_all
    let ?s' = "s\<lparr>timeRemaining := timeRemaining s - 1, elapsedTime := elapsedTime s + 1\<rparr>"
    from tick_within [OF Cons.prems(1,2,3) big, of t] obtain e' where
      e': "timerCallback t e = Inr e'" "session e' = Some ?s'" "intervals e' = intervals e"
      by blast
    have cc: "countConsistent e'"
      using countConsistent_timerCallback [OF Cons.prems(6), of t] e'(1) by simp
    have ph: "getCurrentPhase e' = Some p"
      using Cons.prems(1,4) e'(2) by (simp add: getCurrentPhase_def)
    have "countsShown h ts e'
          = map (\<lambda>k. fst (countFor p (timeRemaining ?s' - int k))) [0..<length ts]"
      using Cons.prems(2,3,5,7) e'(3)
      by (intro Cons.IH [OF e'(2) _ _ ph _ cc]) simp_all
    then have "countsShown h ts e'
          = map (\<lambda>k. fst (countFor p (timeRemaining s - int (Suc k)))) [0..<length ts]"
      by (simp add: algebra_simps)
    with c0 e'(1) Cons.prems(5) show ?thesis
      by (simp add: fire_def map_upt_Suc del: upt_Suc)
  qed
qed

text \<open>
  Claim C2. In every reachable state with a running session, the displayed count
  follows the phase: in an inhale, hold or exhale phase it is
  \<open>min(elapsed + 1, duration)\<close>, where \<open>elapsed = duration - timeRemaining\<close> is the time
  elapsed in the phase, and the direction is up; in a pause phase it is
  \<open>max(timeRemaining, 1)\<close> and the direction is down. Ticking a phase of duration \<open>D\<close>
  from its start, the counts shown during its \<open>D\<close> seconds (read before each of its \<open>D\<close>
  ticks) are \<open>1, 2, ..., D\<close> for inhale, hold and exhale, and \<open>D, D-1, ..., 1\<close> for
  pause.
\<close>

theorem displayed_count_follows_phase:
  assumes "reachable e" and "session e = Some s" and "isActive s" and "\<not> isPaused s"
    and "getCurrentPhase e = Some p"
  shows "(type p \<noteq> T_pause \<longrightarrow>
            getCurrentCount e = min (duration p - timeRemaining s + 1) (duration p) \<and>
            getCountingDirection e = D_up) \<and>
         (type p = T_pause \<longrightarrow>
            getCurrentCount e = max (timeRemaining s) 1 \<and> getCountingDirection e = D_down) \<and>
         (timeRemaining s = duration p \<and> h \<in> set (intervals e) \<and>
          int (length ts) = duration p \<longrightarrow>
            countsShown h ts e =
              (if type p = T_pause then map (\<lambda>k. duration p - int k) [0..<length ts]
               else map (\<lambda>k. int k + 1) [0..<length ts]))"
proof (intro conjI impI)
  have cc: "countConsistent e" using assms(1) by (rule reachable_countConsistent)
  then have c: "(getCurrentCount e, getCountingDirection e) = countFor p (timeRemaining s)"
    using assms(2,3,5)
    by (simp add: countConsistent_def getCurrentCount_def getCountingDirection_def)
  {
    assume "type p \<noteq> T_pause"
    with c show "getCurrentCount e = min (duration p - timeRemaining s + 1) (duration p)"
      and "getCountingDirection e = D_up"
      by (cases "type p"; simp add: countFor_def Let_def)+
  }
  {
    assume "type p = T_pause"
    with c show "getCurrentCount e = max (timeRemaining s) 1"
      and "getCountingDirection e = D_down"
      by (simp_all add: countFor_def Let_def)
  }
  {
    assume a: "timeRemaining s = duration p \<and> h \<in> set (intervals e) \<and>
               int (length ts) = duration p"
    then have "countsShown h ts e
         = map (\<lambda>k. fst (countFor p (duration p - int k))) [0..<length ts]"
      using countsShown_in_phase [OF assms(2,3,4,5) _ cc, of h ts] by simp
    also have "\<dots> = (if type p = T_pause then map (\<lambda>k. duration p - int k) [0..<length ts]
               else map (\<lambda>k. int k + 1) [0..<length ts])"
      using a by (cases "type p") (auto simp: countFor_def Let_def)
    finally show "countsShown h ts e =
              (if type p = T_pause then map (\<lambda>k. duration p - int k) [0..<length ts]
               else map (\<lambda>k. int k + 1) [0..<length ts])" .
  }
qed

theorem displayed_count_follows_phase_witness:
  "countsShown 1 [1000, 2000, 3000, 4000] sampleRunning = [1, 2, 3, 4] \<and>
   getCountingDirection sampleRunning = D_up \<and>
   countsShown 1 [3000, 4000, 5000] sampleResting = [3, 2, 1] \<and>
   getCountingDirection sampleResting = D_down"
proof -
  have p0: "getCurrentPhase sampleRunning = Some \<lparr>type = T_inhale, duration = 4, label = Some ''Inhale''\<rparr>"
    by (simp add: getCurrentPhase_def sampleRunning_session phaseAt_def boxBreathing_def)
  have i0: "1 \<in> set (intervals sampleRunning)"
    by (simp add: sample_defs started_env addEventListener_def newEngine_def)
  have p1: "getCurrentPhase sampleResting = Some \<lparr>type = T_pause, duration = 3, label = None\<rparr>"
    by (simp add: getCurrentPhase_def sampleResting_session phaseAt_def pausePattern_def)
  have i1: "1 \<in> set (intervals sampleResting)"
    by (simp add: sampleResting_def pausePattern_def engine_defs)
  from displayed_count_follows_phase [OF sampleRunning_reachable sampleRunning_session _ _ p0,
      of 1 "[1000, 2000, 3000, 4000]"] i0
    displayed_count_follows_phase [OF sampleResting_reachable sampleResting_session _ _ p1,
      of 1 "[3000, 4000, 5000]"] i1
  show ?thesis by (simp add: upt_rec)
qed

section \<open>Repeated pause and resume\<close>

lemma unpaused_pausedIdle: "unpaused e \<Longrightarrow> pausedIdle e"
  by (simp add: unpaused_def pausedIdle_def)

lemma timerless_pausedIdle: "timer e = None \<Longrightarrow> pausedIdle e"
  by (simp add: pausedIdle_def)

lemma unpaused_completeSession: "unpaused (completeSession e)"
  by (cases "session e") (simp_all add: unpaused_def completeSession_def)

lemma unpaused_completeRound: "unpaused e \<Longrightarrow> unpaused (stateAfter (completeRound e))"
proof (cases "session e")
  case None
  then show ?thesis by (simp add: completeRound_def unpaused_def)
next
  case (Some s)
  assume "unpaused e"
  with Some have "\<not> isPaused s" by (simp add: unpaused_def)
  with Some show ?thesis
    by (auto simp: completeRound_def Let_def unpaused_completeSession split: option.splits)
       (simp_all add: unpaused_def)
qed

lemma unpaused_advancePhase: "unpaused e \<Longrightarrow> unpaused (stateAfter (advancePhase e))"
proof (cases "session e")
  case None
  then show ?thesis by (simp add: advancePhase_def unpaused_def)
next
  case (Some s)
  assume "unpaused e"
  with Some have np: "\<not> isPaused s" by (simp add: unpaused_def)
  let ?e1 = "e\<lparr>session := Some (s\<lparr>currentPhaseIndex := currentPhaseIndex s + 1\<rparr>)\<rparr>"
  have "unpaused ?e1" using np by (simp add: unpaused_def)
  from unpaused_completeRound [OF this] Some np show ?thesis
    by (auto simp: advancePhase_def Let_def split: option.splits)
       (simp_all add: unpaused_def)
qed

lemma unpaused_running_tick:
  assumes "session e = Some s" "isActive s" "\<not> isPaused s"
  shows "unpaused (stateAfter (timerCallback now e))"
proof -
  let ?e1 = "updateCountingState
               (e\<lparr>session := Some (s\<lparr>timeRemaining := timeRemaining s - 1,
                                       elapsedTime := elapsedTime s + 1\<rparr>)\<rparr>)"
  have u: "unpaused ?e1" using assms by (simp add: unpaused_def)
  show ?thesis
  proof (cases "timeRemaining s - 1 \<le> 0")
    case True
    have "session (stateAfter (timerCallback now e)) = session (stateAfter (advancePhase ?e1))"
      using assms True by (cases "advancePhase ?e1") (auto simp: timerCallback_def Let_def)
    with unpaused_advancePhase [OF u] show ?thesis by (simp add: unpaused_def)
  next
    case False
    with assms show ?thesis by (simp add: timerCallback_def Let_def unpaused_def)
  qed
qed

lemma pausedIdle_timerCallback: "pausedIdle (stateAfter (timerCallback now e))"
proof (cases "session e = None \<or> (\<exists>s. session e = Some s \<and> (isPaused s \<or> \<not> isActive s))")
  case True
  from tick_inactive [OF this] show ?thesis by (simp add: timerless_pausedIdle)
next
  case False
  then obtain s where "session e = Some s" "isActive s" "\<not> isPaused s" by auto
  from unpaused_running_tick [OF this] show ?thesis by (rule unpaused_pausedIdle)
qed

lemma pausedIdle_exec:
  assumes "pausedIdle e"
  shows "pausedIdle (stateAfter (exec a e))"
proof (cases a)
  case (CreateSession pat n)
  then show ?thesis
    by (simp add: createSession_def Let_def pausedIdle_def)
next
  case (SetSoundCallback cb)
  with assms show ?thesis by (simp add: setSoundCallback_def pausedIdle_def)
next
  case (Start now)
  with assms show ?thesis
    by (auto simp: start_def Let_def pausedIdle_def split: option.splits)
next
  case Pause
  with assms show ?thesis
    by (auto simp: pause_def pausedIdle_def split: option.splits)
next
  case (Resume now)
  with assms show ?thesis
    by (auto simp: resume_def Let_def pausedIdle_def split: option.splits)
next
  case Stop
  then show ?thesis by (simp add: timerless_pausedIdle)
next
  case Reset
  then show ?thesis
    by (cases "session e") (simp_all add: reset_def Let_def pausedIdle_def)
next
  case (AddEventListener l)
  with assms show ?thesis by (simp add: addEventListener_def pausedIdle_def)
next
  case (RemoveEventListener l)
  with assms show ?thesis by (simp add: removeEventListener_def pausedIdle_def)
next
  case (Fire h now)
  with assms show ?thesis by (simp add: fire_def pausedIdle_timerCallback)
qed

lemma reachable_pausedIdle: "reachable e \<Longrightarrow> pausedIdle e"
proof (induction rule: reachable.induct)
  case reachable_new
  show ?case by (simp add: pausedIdle_def newEngine_def)
next
  case (reachable_step e a)
  then show ?case by (simp add: pausedIdle_exec)
qed

text \<open>
  Claim C5, as stated, fails: a second \<open>pause()\<close> on a session that is active and
  already paused emits one more \<open>pause\<close> event (the guard of \<open>pause()\<close> tests \<open>isActive\<close>
  only).
\<close>

theorem second_pause_not_silent:
  "map_option isActive (session samplePaused) = Some True \<and>
   map_option isPaused (session samplePaused) = Some True \<and>
   emitted samplePaused = [(E_resume, [7]), (E_pause, [7])] \<and>
   emitted (pause samplePaused) = [(E_resume, [7]), (E_pause, [7]), (E_pause, [7])] \<and>
   pause samplePaused \<noteq> samplePaused"
proof -
  have 1: "emitted samplePaused = [(E_resume, [7]), (E_pause, [7])]"
    by (simp add: sample_defs pause_def start_def createSession_def addEventListener_def
        newEngine_def Let_def)
  have 2: "emitted (pause samplePaused) = emitted samplePaused @ [(E_pause, [7])]"
    by (simp add: pause_def samplePaused_session)
       (simp add: sample_defs pause_def start_def createSession_def addEventListener_def
        newEngine_def Let_def)
  from 1 2 have "emitted (pause samplePaused) \<noteq> emitted samplePaused" by simp
  then have "pause samplePaused \<noteq> samplePaused" by auto
  with 1 2 show ?thesis by (simp add: samplePaused_session)
qed

text \<open>
  Claim C5, amended. In every reachable state whose session is active and already
  paused, a second \<open>pause()\<close> changes no field of the engine or of the session and cancels
  nothing; it only emits one more \<open>pause\<close> event. For every engine whose session is
  active and not paused, \<open>resume()\<close> is a no-op.
\<close>

theorem repeated_pause_and_resume:
  "(reachable e \<and> session e = Some s \<and> isActive s \<and> isPaused s \<longrightarrow>
      pause e = emitEvent E_pause e) \<and>
   (session e = Some s \<and> isActive s \<and> \<not> isPaused s \<longrightarrow> resume now e = e)"
proof (intro conjI impI)
  assume a: "reachable e \<and> session e = Some s \<and> isActive s \<and> isPaused s"
  then have t: "timer e = None" using reachable_pausedIdle [of e] by (simp add: pausedIdle_def)
  have "s\<lparr>isPaused := True\<rparr> = s" using a by (cases s) simp
  then have eq: "e\<lparr>session := Some (s\<lparr>isPaused := True\<rparr>)\<rparr> = e" using a by simp
  have "pause e = emitEvent E_pause (clearTimer (e\<lparr>session := Some (s\<lparr>isPaused := True\<rparr>)\<rparr>))"
    using a by (simp add: pause_def)
  also have "\<dots> = emitEvent E_pause (clearTimer e)" by (simp only: eq)
  also have "\<dots> = emitEvent E_pause e" using t by (simp add: clearTimer_def)
  finally show "pause e = emitEvent E_pause e" .
next
  assume "session e = Some s \<and> isActive s \<and> \<not> isPaused s"
  then show "resume now e = e" by (simp add: resume_def)
qed

theorem repeated_pause_and_resume_witness:
  "pause samplePaused = emitEvent E_pause samplePaused \<and> resume 0 sampleRunning = sampleRunning"
proof -
  let ?p = "\<lparr>pattern = boxBreathing, breaths = 2, currentRound = 1, currentPhaseIndex = 0,
           timeRemaining = 4, isActive = True, isPaused = True, totalTime = 32,
           elapsedTime = 0\<rparr>"
  let ?r = "\<lparr>pattern = boxBreathing, breaths = 2, currentRound = 1, currentPhaseIndex = 0,
           timeRemaining = 4, isActive = True, isPaused = False, totalTime = 32,
           elapsedTime = 0\<rparr>"
  have p: "reachable samplePaused \<and> session samplePaused = Some ?p \<and> isActive ?p \<and> isPaused ?p"
    by (simp add: samplePaused_reachable samplePaused_session)
  have r: "session sampleRunning = Some ?r \<and> isActive ?r \<and> \<not> isPaused ?r"
    by (simp add: sampleRunning_session)
  from repeated_pause_and_resume [of samplePaused ?p 0] p
    repeated_pause_and_resume [of sampleRunning ?r 0] r
  show ?thesis by blast
qed


section \<open>The order of the events\<close>

lemma stopPrecedes_append:
  "stopPrecedes prev (xs @ ys) =
     (stopPrecedes prev xs \<and> stopPrecedes (if xs = [] then prev else Some (last xs)) ys)"
  by (induction xs arbitrary: prev) auto

lemma stopPrecedes_nth:
  assumes "stopPrecedes prev xs" "i < length xs" "xs ! i = E_sessionComplete"
  shows "if i = 0 then prev = Some E_stop else xs ! (i - 1) = E_stop"
  using assms
proof (induction xs arbitrary: prev i)
  case Nil
  then show ?case by simp
next
  case (Cons x xs)
  show ?case
  proof (cases i)
    case 0
    with Cons.prems show ?thesis by simp
  next
    case (Suc j)
    with Cons.prems have "stopPrecedes (Some x) xs" "j < length xs" "xs ! j = E_sessionComplete"
      by simp_all
    from Cons.IH [OF this] Suc show ?thesis by (cases j) simp_all
  qed
qed

lemma emitsOnly_refl: "emitted e' = emitted e \<Longrightarrow> emitsOnly e e'"
  by (simp add: emitsOnly_def)

lemma emitsOnly_trans: "emitsOnly e e' \<Longrightarrow> emitsOnly e' e'' \<Longrightarrow> emitsOnly e e''"
  unfolding emitsOnly_def
  apply clarify
  subgoal for xs ys
    by (rule exI [of _ "xs @ ys"]) (simp add: stopPrecedes_append)
  done

lemma emitsOnly_event:
  "ev \<noteq> E_sessionComplete \<Longrightarrow> emitted e' = emitted e \<Longrightarrow> emitsOnly e (emitEvent ev e')"
  by (simp add: emitsOnly_def)

lemma emitsOnly_stop: "emitsOnly e (stop e)"
  by (simp add: emitsOnly_def)

lemma completeSession_emitted:
  "emitted (completeSession e)
   = emitted e @ [(E_stop, listeners e), (E_sessionComplete, listeners e)]"
  by (simp add: completeSession_def)

lemma emitsOnly_completeSession: "emitsOnly e (completeSession e)"
  by (simp add: emitsOnly_def completeSession_emitted)

lemma emitsOnly_completeRound: "emitsOnly e (stateAfter (completeRound e))"
proof (cases "session e")
  case None
  then show ?thesis by (simp add: completeRound_def emitsOnly_refl)
next
  case (Some s)
  let ?e1 = "emitEvent (E_roundComplete (currentRound s) (breaths s))
               (e\<lparr>session := Some (s\<lparr>currentRound := currentRound s + 1,
                                       currentPhaseIndex := 0\<rparr>)\<rparr>)"
  have 1: "emitsOnly e ?e1" by (rule emitsOnly_event) simp_all
  have "emitsOnly ?e1 (stateAfter (completeRound e))"
    using Some
    by (auto simp: completeRound_def Let_def emitsOnly_completeSession emitsOnly_refl
        split: option.splits intro!: emitsOnly_event)
  with 1 show ?thesis by (rule emitsOnly_trans)
qed

lemma emitsOnly_advancePhase: "emitsOnly e (stateAfter (advancePhase e))"
proof (cases "session e")
  case None
  then show ?thesis by (simp add: advancePhase_def emitsOnly_refl)
next
  case (Some s)
  let ?e1 = "e\<lparr>session := Some (s\<lparr>currentPhaseIndex := currentPhaseIndex s + 1\<rparr>)\<rparr>"
  have 1: "emitsOnly e ?e1" by (rule emitsOnly_refl) simp
  have "emitsOnly ?e1 (stateAfter (advancePhase e))"
    using Some emitsOnly_completeRound [of ?e1]
    by (auto simp: advancePhase_def Let_def emitsOnly_refl
        split: option.splits intro!: emitsOnly_event)
  with 1 show ?thesis by (rule emitsOnly_trans)
qed

lemma emitsOnly_timerCallback: "emitsOnly e (stateAfter (timerCallback now e))"
proof (cases "session e = None \<or> (\<exists>s. session e = Some s \<and> (isPaused s \<or> \<not> isActive s))")
  case True
  from tick_inactive [OF this] show ?thesis by (simp add: emitsOnly_refl)
next
  case False
  then obtain s where s: "session e = Some s" "isActive s" "\<not> isPaused s" by auto
  let ?e1 = "updateCountingState
               (e\<lparr>session := Some (s\<lparr>timeRemaining := timeRemaining s - 1,
                                       elapsedTime := elapsedTime s + 1\<rparr>)\<rparr>)"
  have 1: "emitsOnly e ?e1" by (rule emitsOnly_refl) simp
  have 2: "emitsOnly ?e1 (stateAfter (advancePhase ?e1))" by (rule emitsOnly_advancePhase)
  have "emitsOnly ?e1 (stateAfter (timerCallback now e))"
  proof (cases "timeRemaining s - 1 \<le> 0")
    case True
    have "emitted (stateAfter (timerCallback now e)) = emitted (stateAfter (advancePhase ?e1))"
      using s True by (cases "advancePhase ?e1") (auto simp: timerCallback_def Let_def)
    with 2 show ?thesis by (simp add: emitsOnly_def)
  next
    case False
    with s show ?thesis by (simp add: timerCallback_def Let_def emitsOnly_refl)
  qed
  with 1 show ?thesis by (rule emitsOnly_trans)
qed

lemma emitsOnly_exec: "emitsOnly e (stateAfter (exec a e))"
proof (cases a)
  case (CreateSession pat n)
  then show ?thesis by (simp add: createSession_def Let_def emitsOnly_refl)
next
  case (SetSoundCallback cb)
  then show ?thesis by (simp add: setSoundCallback_def emitsOnly_refl)
next
  case (Start now)
  then show ?thesis
    by (auto simp: start_def Let_def emitsOnly_refl split: option.splits intro!: emitsOnly_event)
next
  case Pause
  then show ?thesis
    by (auto simp: pause_def emitsOnly_refl split: option.splits intro!: emitsOnly_event)
next
  case (Resume now)
  then show ?thesis
    by (auto simp: resume_def Let_def emitsOnly_refl split: option.splits intro!: emitsOnly_event)
next
  case Stop
  then show ?thesis by (simp add: emitsOnly_stop)
next
  case Reset
  have "emitted (reset e) = emitted (stop e)"
    by (cases "session e") (simp_all add: reset_def Let_def)
  with emitsOnly_stop [of e] Reset show ?thesis by (simp add: emitsOnly_def)
next
  case (AddEventListener l)
  then show ?thesis by (simp add: addEventListener_def emitsOnly_refl)
next
  case (RemoveEventListener l)
  then show ?thesis by (simp add: removeEventListener_def emitsOnly_refl)
next
  case (Fire h now)
  then show ?thesis by (simp add: fire_def emitsOnly_timerCallback emitsOnly_refl)
qed

lemma reachable_stopPrecedes: "reachable e \<Longrightarrow> stopPrecedes None (map fst (emitted e))"
proof (induction rule: reachable.induct)
  case reachable_new
  show ?case by (simp add: newEngine_def)
next
  case (reachable_step e a)
  from emitsOnly_exec [of e a] obtain evs where
    "emitted (stateAfter (exec a e)) = emitted e @ evs" "\<forall>prev. stopPrecedes prev (map fst evs)"
    by (auto simp: emitsOnly_def)
  with reachable_step.IH show ?case by (simp add: stopPrecedes_append)
qed

text \<open>
  Claim C10. The event type has no \<open>start\<close>: \<open>start()\<close> on an engine with a session
  emits exactly one event, a \<open>resume\<close>. \<open>completeSession\<close> emits a \<open>stop\<close> and then a
  \<open>sessionComplete\<close>, and in the trace of every reachable engine each \<open>sessionComplete\<close>
  comes directly after a \<open>stop\<close>.
\<close>

theorem start_emits_resume_and_stop_precedes_complete:
  "(session e = Some s \<longrightarrow> emitted (start now e) = emitted e @ [(E_resume, listeners e)]) \<and>
   emitted (completeSession e)
     = emitted e @ [(E_stop, listeners e), (E_sessionComplete, listeners e)] \<and>
   (reachable e \<longrightarrow>
      (\<forall>i<length (emitted e). fst (emitted e ! i) = E_sessionComplete \<longrightarrow>
          0 < i \<and> fst (emitted e ! (i - 1)) = E_stop))"
proof (intro conjI impI allI)
  assume "session e = Some s"
  then show "emitted (start now e) = emitted e @ [(E_resume, listeners e)]"
    by (simp add: start_def Let_def)
next
  show "emitted (completeSession e)
     = emitted e @ [(E_stop, listeners e), (E_sessionComplete, listeners e)]"
    by (rule completeSession_emitted)
next
  fix i
  assume r: "reachable e" and i: "i < length (emitted e)"
    and c: "fst (emitted e ! i) = E_sessionComplete"
  from stopPrecedes_nth [OF reachable_stopPrecedes [OF r], of i] i c
  have "if i = 0 then None = Some E_stop else map fst (emitted e) ! (i - 1) = E_stop" by simp
  with i show "0 < i" and "fst (emitted e ! (i - 1)) = E_stop"
    by (simp_all split: if_splits)
qed


theorem start_emits_resume_and_stop_precedes_complete_witness:
  "emitted (start 4000 sampleCompleted) = emitted sampleCompleted @ [(E_resume, [])] \<and>
   emitted sampleCompleted =
     [(E_resume, []), (E_roundComplete 1 1, []), (E_stop, []), (E_sessionComplete, [])] \<and>
   fst (emitted sampleCompleted ! 2) = E_stop"
proof -
  let ?s = "\<lparr>pattern = singleInhale, breaths = 1, currentRound = 2, currentPhaseIndex = 0,
           timeRemaining = 0, isActive = False, isPaused = False, totalTime = 3,
           elapsedTime = 3\<rparr>"
  note t = start_emits_resume_and_stop_precedes_complete [of sampleCompleted ?s 4000]
  have l: "listeners sampleCompleted = []"
    by (simp add: sampleCompleted_def completingCalls_def singleInhale_def engine_defs)
  from t sampleCompleted_session l
  have a: "emitted (start 4000 sampleCompleted) = emitted sampleCompleted @ [(E_resume, [])]"
    by simp
  from t sampleCompleted_reachable
  have "\<forall>i<length (emitted sampleCompleted).
          fst (emitted sampleCompleted ! i) = E_sessionComplete \<longrightarrow>
          0 < i \<and> fst (emitted sampleCompleted ! (i - 1)) = E_stop"
    by blast
  from this [rule_format, of 3] have "fst (emitted sampleCompleted ! 2) = E_stop"
    by (simp add: sampleCompleted_emitted)
  with a show ?thesis by (simp add: sampleCompleted_emitted)
qed

section \<open>Rounds and completion\<close>

lemma control_emits_no_sessionComplete:
  "isControl a \<Longrightarrow>
   sessionCompletes (emitted (stateAfter (exec a e))) = sessionCompletes (emitted e)"
proof (cases a)
  case (CreateSession pat n)
  then show ?thesis by (simp add: createSession_def Let_def)
next
  case (Start now)
  then show ?thesis by (cases "session e") (simp_all add: start_def Let_def)
next
  case Pause
  then show ?thesis by (cases "session e") (simp_all add: pause_def)
next
  case (Resume now)
  then show ?thesis by (cases "session e") (simp_all add: resume_def Let_def)
next
  case Reset
  then show ?thesis by (cases "session e") (simp_all add: reset_def Let_def)
qed (simp_all add: isControl_def setSoundCallback_def addEventListener_def
      removeEventListener_def)

lemma roundOk_running_tick:
  assumes "session e = Some s" "isActive s" "\<not> isPaused s"
    and "1 \<le> breaths s" "1 \<le> currentRound s" "currentRound s \<le> breaths s"
  shows "\<exists>s'. session (stateAfter (timerCallback now e)) = Some s' \<and>
           roundOk s' (sessionCompletes (emitted e)
              < sessionCompletes (emitted (stateAfter (timerCallback now e))))"
  using assms
  by (auto simp: roundOk_def timerCallback_def advancePhase_def completeRound_def
      completeSession_def Let_def split: option.splits)

lemma roundInvariant_tick:
  assumes "roundInvariant e c"
  shows "roundInvariant (stateAfter (timerCallback now e))
           (c \<or> sessionCompletes (emitted e)
                  < sessionCompletes (emitted (stateAfter (timerCallback now e))))"
proof (cases "session e = None \<or> (\<exists>s. session e = Some s \<and> (isPaused s \<or> \<not> isActive s))")
  case True
  have "timerCallback now e = Inr (clearTimer e)" by (rule tick_inactive [OF True])
  then have "stateAfter (timerCallback now e) = clearTimer e" by simp
  moreover have "roundInvariant (clearTimer e) c" using assms by (simp add: roundInvariant_def)
  ultimately show ?thesis by simp
next
  case False
  then obtain s where s: "session e = Some s" "isActive s" "\<not> isPaused s" by auto
  with assms have ok: "roundOk s c" by (simp add: roundInvariant_def)
  with s have nc: "\<not> c" by (auto simp: roundOk_def)
  from ok nc have i: "1 \<le> breaths s" "1 \<le> currentRound s" "currentRound s \<le> breaths s"
    by (auto simp: roundOk_def)
  from roundOk_running_tick [OF s i, of now] nc show ?thesis
    by (auto simp: roundInvariant_def)
qed

lemma roundInvariant_exec:
  assumes "roundInvariant e c" "permitted a e"
  shows "roundInvariant (stateAfter (exec a e)) (completedAfter a e c)"
proof (cases "isControl a")
  case False
  then obtain h now where f: "a = Fire h now" by (cases a) (simp_all add: isControl_def)
  show ?thesis
  proof (cases "h \<in> set (intervals e)")
    case True
    with f roundInvariant_tick [OF assms(1), of now] show ?thesis
      by (simp add: completedAfter_def fire_def)
  next
    case False
    with f assms(1) show ?thesis by (simp add: completedAfter_def fire_def)
  qed
next
  case True
  note quiet = control_emits_no_sessionComplete [OF True, of e]
  show ?thesis
  proof (cases a)
    case (CreateSession pat n)
    with assms(2) show ?thesis
      by (simp add: roundInvariant_def roundOk_def completedAfter_def permitted_def
          createSession_def Let_def)
  next
    case (SetSoundCallback cb)
    with assms(1) quiet show ?thesis
      by (simp add: roundInvariant_def completedAfter_def setSoundCallback_def)
  next
    case (Start now)
    have "completedAfter a e c = c" using Start quiet by (simp add: completedAfter_def)
    moreover have "roundInvariant (start now e) c"
    proof (cases "session e")
      case None
      then show ?thesis by (simp add: roundInvariant_def session_start)
    next
      case (Some s)
      with assms Start have "roundOk s c" "currentRound s \<le> breaths s"
        by (simp_all add: roundInvariant_def permitted_def)
      then have "roundOk (s\<lparr>isActive := True, isPaused := False\<rparr>) c"
        by (auto simp: roundOk_def)
      with Some show ?thesis by (simp add: roundInvariant_def session_start)
    qed
    ultimately show ?thesis using Start by simp
  next
    case Pause
    have "completedAfter a e c = c" using Pause quiet by (simp add: completedAfter_def)
    moreover have "roundInvariant (pause e) c"
    proof (cases "session e")
      case None
      then show ?thesis by (simp add: roundInvariant_def session_pause)
    next
      case (Some s)
      with assms have "roundOk s c" by (simp add: roundInvariant_def)
      then have "roundOk (if isActive s then s\<lparr>isPaused := True\<rparr> else s) c"
        by (auto simp: roundOk_def)
      with Some show ?thesis by (simp add: roundInvariant_def session_pause)
    qed
    ultimately show ?thesis using Pause by simp
  next
    case (Resume now)
    have "completedAfter a e c = c" using Resume quiet by (simp add: completedAfter_def)
    moreover have "roundInvariant (resume now e) c"
    proof (cases "session e")
      case None
      then show ?thesis by (simp add: roundInvariant_def session_resume)
    next
      case (Some s)
      with assms have "roundOk s c" by (simp add: roundInvariant_def)
      then have "roundOk (if isPaused s then s\<lparr>isPaused := False\<rparr> else s) c"
        by (auto simp: roundOk_def)
      with Some show ?thesis by (simp add: roundInvariant_def session_resume)
    qed
    ultimately show ?thesis using Resume by simp
  next
    case Stop
    have "completedAfter a e c = c" using Stop quiet by (simp add: completedAfter_def)
    moreover have "roundInvariant (stop e) c"
    proof (cases "session e")
      case None
      then show ?thesis by (simp add: roundInvariant_def)
    next
      case (Some s)
      with assms have "roundOk s c" by (simp add: roundInvariant_def)
      then have "roundOk (s\<lparr>isActive := False, isPaused := False\<rparr>) c"
        by (auto simp: roundOk_def)
      with Some show ?thesis by (simp add: roundInvariant_def)
    qed
    ultimately show ?thesis using Stop by simp
  next
    case Reset
    have "roundInvariant (reset e) False"
    proof (cases "session e")
      case None
      then show ?thesis by (simp add: roundInvariant_def session_reset)
    next
      case (Some s)
      with assms have "roundOk s c" by (simp add: roundInvariant_def)
      then have "1 \<le> breaths s" by (simp add: roundOk_def)
      with Some show ?thesis by (simp add: roundInvariant_def session_reset roundOk_def)
    qed
    then show ?thesis using Reset by (simp add: completedAfter_def)
  next
    case (AddEventListener l)
    with assms(1) quiet show ?thesis
      by (simp add: roundInvariant_def completedAfter_def addEventListener_def)
  next
    case (RemoveEventListener l)
    with assms(1) quiet show ?thesis
      by (simp add: roundInvariant_def completedAfter_def removeEventListener_def)
  next
    case (Fire h now)
    with True show ?thesis by (simp add: isControl_def)
  qed
qed

lemma gated_roundInvariant: "gated e c \<Longrightarrow> roundInvariant e c"
proof (induction rule: gated.induct)
  case gated_new
  show ?case by (simp add: roundInvariant_def newEngine_def)
next
  case (gated_step e c a)
  then show ?case by (simp add: roundInvariant_exec)
qed

lemma gated_run:
  "gated e c \<Longrightarrow> permittedRun as e \<Longrightarrow> gated (run as e) (completedRun as e c)"
  by (induction as arbitrary: e c) (simp_all add: gated_step)

text \<open>
  Claim C8, as stated, fails: \<open>start()\<close> has no guard against a completed session. After
  a session of one round completes (\<open>currentRound = 2\<close>), \<open>start()\<close> and one more tick
  raise \<open>currentRound\<close> to 3, which is \<open>breaths + 2\<close>.
\<close>

theorem restart_exceeds_round_bound:
  "reachable sampleRestarted \<and>
   map_option breaths (session sampleRestarted) = Some 1 \<and>
   map_option currentRound (session sampleRestarted) = Some 3"
proof -
  have "reachable (run (completingCalls @ [Start 4000, Fire 2 5000]) newEngine)"
    by (rule reachable_run [OF reachable_new])
  also have "run (completingCalls @ [Start 4000, Fire 2 5000]) newEngine = sampleRestarted"
    by (simp add: sampleRestarted_def sampleCompleted_def completingCalls_def)
  finally have r: "reachable sampleRestarted" .
  have "session sampleRestarted =
     Some \<lparr>pattern = singleInhale, breaths = 1, currentRound = 3, currentPhaseIndex = 0,
           timeRemaining = -1, isActive = False, isPaused = False, totalTime = 3,
           elapsedTime = 4\<rparr>"
    by (simp add: sampleRestarted_def sampleCompleted_def completingCalls_def singleInhale_def
        engine_defs)
  with r show ?thesis by simp
qed

text \<open>
  Claim C8, amended. \<open>createSession\<close> sets \<open>currentRound\<close> to 1. In every state reached
  by calls in which sessions are created with \<open>breaths \<ge> 1\<close> and a non-empty phase list
  and \<open>start()\<close> is not called on a session whose \<open>currentRound\<close> exceeds \<open>breaths\<close>,
  \<open>currentRound \<ge> 1\<close>, and \<open>currentRound > breaths\<close> holds exactly when the session is
  complete (a \<open>sessionComplete\<close> was emitted since the session was created or last
  reset): \<open>currentRound \<le> breaths\<close> unless the session is complete, in which case
  \<open>currentRound = breaths + 1\<close>.
\<close>

theorem round_bound_until_restart:
  assumes "gated e c" and "session e = Some s"
  shows "map_option currentRound (session (createSession pat n e)) = Some 1 \<and>
         1 \<le> currentRound s \<and> (breaths s < currentRound s \<longleftrightarrow> c) \<and>
         (currentRound s \<le> breaths s \<or> c \<and> currentRound s = breaths s + 1)"
proof -
  have "map_option currentRound (session (createSession pat n e)) = Some 1"
    by (simp add: createSession_def Let_def)
  moreover from gated_roundInvariant [OF assms(1)] assms(2)
  have "1 \<le> currentRound s \<and> (breaths s < currentRound s \<longleftrightarrow> c) \<and>
         (currentRound s \<le> breaths s \<or> c \<and> currentRound s = breaths s + 1)"
    by (auto simp: roundInvariant_def roundOk_def)
  ultimately show ?thesis by simp
qed

theorem round_bound_until_restart_witness:
  "gated sampleCompleted True \<and>
   map_option currentRound (session sampleCompleted) = Some 2 \<and>
   map_option breaths (session sampleCompleted) = Some 1"
proof -
  have p: "permittedRun completingCalls newEngine"
    by (simp add: completingCalls_def permitted_def singleInhale_def engine_defs)
  have c: "completedRun completingCalls newEngine False = True"
    by (simp add: completingCalls_def completedAfter_def singleInhale_def engine_defs)
  from gated_run [OF gated_new p] c have g: "gated sampleCompleted True"
    by (simp add: sampleCompleted_def)
  from round_bound_until_restart [OF g sampleCompleted_session] g show ?thesis
    by (simp add: sampleCompleted_session)
qed

end
